theory Spec2Isabelle
  imports Main
begin

section \<open>Node state\<close>

text \<open>
  The simulator keeps four nodes. Each node is a struct of four arrays of bool:
  \<^verbatim>\<open>registers[2][2][32]\<close>, \<^verbatim>\<open>caches[2][4][37]\<close> (bit 0 valid, bits 1-4 tag, bits 5-36 data),
  \<^verbatim>\<open>memory[16][32]\<close> and \<^verbatim>\<open>directory[16][6]\<close> (bits 0-1 state, bits 2-5 presence of
  nodes 0-3). An array is modelled as a function from its indices; an index outside the
  array is undefined behaviour in the source and is reported as \<open>OutOfBounds\<close> by the
  operations below wherever the source can compute one.
\<close>

record Node =
  registers :: "nat \<Rightarrow> nat \<Rightarrow> nat \<Rightarrow> bool"
  caches :: "nat \<Rightarrow> nat \<Rightarrow> nat \<Rightarrow> bool"
  memory :: "nat \<Rightarrow> nat \<Rightarrow> bool"
  directory :: "nat \<Rightarrow> nat \<Rightarrow> bool"

text \<open>
  The global state: the array \<^verbatim>\<open>systemNodes[4]\<close> and the counter \<^verbatim>\<open>clockCount\<close>. The
  counter is a 32-bit C++ \<^verbatim>\<open>int\<close>, whose overflow is undefined behaviour. Each access
  increments it once; the increment is computed in the integers and the main loop
  (\<open>step\<close> below) ends the run with \<open>SignedOverflow\<close> when the incremented counter no
  longer fits, that is when it exceeds \<open>2147483647\<close>.
\<close>

record System =
  systemNodes :: "nat \<Rightarrow> Node"
  clockCount :: int

datatype error = OutOfBounds | SignedOverflow

subsection \<open>Reading and writing one bit\<close>

definition reg_bit :: "System \<Rightarrow> nat \<Rightarrow> nat \<Rightarrow> nat \<Rightarrow> nat \<Rightarrow> bool" where
  "reg_bit s n c r i = registers (systemNodes s n) c r i"

definition cache_bit :: "System \<Rightarrow> nat \<Rightarrow> nat \<Rightarrow> nat \<Rightarrow> nat \<Rightarrow> bool" where
  "cache_bit s n c l i = caches (systemNodes s n) c l i"

definition mem_bit :: "System \<Rightarrow> nat \<Rightarrow> nat \<Rightarrow> nat \<Rightarrow> bool" where
  "mem_bit s n w i = memory (systemNodes s n) w i"

definition dir_bit :: "System \<Rightarrow> nat \<Rightarrow> nat \<Rightarrow> nat \<Rightarrow> bool" where
  "dir_bit s n e i = directory (systemNodes s n) e i"

text \<open>\<^verbatim>\<open>systemNodes[n]->registers[c][r][i] = v\<close> and its three siblings.\<close>

definition set_reg :: "nat \<Rightarrow> nat \<Rightarrow> nat \<Rightarrow> nat \<Rightarrow> bool \<Rightarrow> System \<Rightarrow> System" where
  "set_reg n c r i v s =
     s\<lparr>systemNodes := (systemNodes s)
        (n := (systemNodes s n)\<lparr>registers := (registers (systemNodes s n))
           (c := (registers (systemNodes s n) c)
              (r := (registers (systemNodes s n) c r)(i := v)))\<rparr>)\<rparr>"

definition set_cache :: "nat \<Rightarrow> nat \<Rightarrow> nat \<Rightarrow> nat \<Rightarrow> bool \<Rightarrow> System \<Rightarrow> System" where
  "set_cache n c l i v s =
     s\<lparr>systemNodes := (systemNodes s)
        (n := (systemNodes s n)\<lparr>caches := (caches (systemNodes s n))
           (c := (caches (systemNodes s n) c)
              (l := (caches (systemNodes s n) c l)(i := v)))\<rparr>)\<rparr>"

definition set_mem :: "nat \<Rightarrow> nat \<Rightarrow> nat \<Rightarrow> bool \<Rightarrow> System \<Rightarrow> System" where
  "set_mem n w i v s =
     s\<lparr>systemNodes := (systemNodes s)
        (n := (systemNodes s n)\<lparr>memory := (memory (systemNodes s n))
           (w := (memory (systemNodes s n) w)(i := v))\<rparr>)\<rparr>"

definition set_dir :: "nat \<Rightarrow> nat \<Rightarrow> nat \<Rightarrow> bool \<Rightarrow> System \<Rightarrow> System" where
  "set_dir n e i v s =
     s\<lparr>systemNodes := (systemNodes s)
        (n := (systemNodes s n)\<lparr>directory := (directory (systemNodes s n))
           (e := (directory (systemNodes s n) e)(i := v))\<rparr>)\<rparr>"

definition add_clock :: "int \<Rightarrow> System \<Rightarrow> System" where
  "add_clock k s = s\<lparr>clockCount := clockCount s + k\<rparr>"

section \<open>Tags and cache hits\<close>

text \<open>
  The four tag bits of an address, most significant first, as \<^verbatim>\<open>memoryAccess\<close> and
  \<^verbatim>\<open>writeToMem\<close> compute them: \<^verbatim>\<open>iTag = memoryAddress / 4\<close>, then
  \<^verbatim>\<open>tag[3] = iTag % 2 == 1; iTag /= 2;\<close> and so on down to \<^verbatim>\<open>tag[0]\<close>.
\<close>

definition tag_of :: "nat \<Rightarrow> nat \<Rightarrow> bool" where
  "tag_of memoryAddress =
     (let iTag = memoryAddress div 4;
          t3 = (iTag mod 2 = 1);
          iTag = iTag div 2;
          t2 = (iTag mod 2 = 1);
          iTag = iTag div 2;
          t1 = (iTag mod 2 = 1);
          iTag = iTag div 2;
          t0 = (iTag mod 2 = 1)
      in (\<lambda>_. False)(3 := t3, 2 := t2, 1 := t1, 0 := t0))"

text \<open>
  The five-fold test that recurs in the source: the line is valid and its bits 1-4 equal
  \<^verbatim>\<open>tag[0..3]\<close>.
\<close>

definition line_hit :: "System \<Rightarrow> nat \<Rightarrow> nat \<Rightarrow> nat \<Rightarrow> (nat \<Rightarrow> bool) \<Rightarrow> bool" where
  "line_hit s n c l tag \<longleftrightarrow>
     cache_bit s n c l 0 \<and>
     cache_bit s n c l 1 = tag 0 \<and>
     cache_bit s n c l 2 = tag 1 \<and>
     cache_bit s n c l 3 = tag 2 \<and>
     cache_bit s n c l 4 = tag 3"

section \<open>Write-back of an evicted line\<close>

text \<open>
  \<^verbatim>\<open>writeBack(nodeIndex, cpuIndex, cacheIndex)\<close>. When the line is valid, the loop over the
  tag bits \<open>i = 1..4\<close> doubles and increments \<^verbatim>\<open>memoryAddress\<close> inside the test of the
  bit, then the address is multiplied by four and the cache index added. The 32 data bits
  go to home memory when both state bits of that address's directory entry are set.
\<close>

definition writeBack_address :: "System \<Rightarrow> nat \<Rightarrow> nat \<Rightarrow> nat \<Rightarrow> nat" where
  "writeBack_address s nodeIndex cpuIndex cacheIndex =
     (let memoryAddress =
            fold (\<lambda>i memoryAddress.
                    if cache_bit s nodeIndex cpuIndex cacheIndex i
                    then memoryAddress * 2 + 1 else memoryAddress) [1..<5] 0;
          memoryAddress = memoryAddress * 4;
          memoryAddress = memoryAddress + cacheIndex
      in memoryAddress)"

definition writeBack :: "nat \<Rightarrow> nat \<Rightarrow> nat \<Rightarrow> System \<Rightarrow> System" where
  "writeBack nodeIndex cpuIndex cacheIndex s =
     (if cache_bit s nodeIndex cpuIndex cacheIndex 0 then
        let memoryAddress = writeBack_address s nodeIndex cpuIndex cacheIndex;
            homeNode = memoryAddress div 16;
            localMemAddress = memoryAddress mod 16
        in if dir_bit s homeNode localMemAddress 0 \<and> dir_bit s homeNode localMemAddress 1
           then fold (\<lambda>i s. set_mem homeNode localMemAddress i
                               (cache_bit s nodeIndex cpuIndex cacheIndex (i + 5)) s) [0..<32] s
           else s
      else s)"

section \<open>Loads\<close>

text \<open>
  The four cases of the load branch of \<^verbatim>\<open>memoryAccess\<close>, each the body of its branch,
  statement by statement.

  Case 1, valid copy in the local cache: one clock, and the loop
  \<^verbatim>\<open>registers[cpuIndex][reg][i] = caches[cpuIndex][cacheIndex][i+4]\<close> for \<open>i < 32\<close>.
\<close>

definition load_case1 :: "nat \<Rightarrow> nat \<Rightarrow> nat \<Rightarrow> nat \<Rightarrow> System \<Rightarrow> System" where
  "load_case1 nodeIndex cpuIndex cacheIndex reg s =
     (let s = add_clock 1 s
      in fold (\<lambda>i s. set_reg nodeIndex cpuIndex reg i
                        (cache_bit s nodeIndex cpuIndex cacheIndex (i + 4)) s) [0..<32] s)"

text \<open>
  Case 2, valid copy in the sister cache: thirty clocks, the 32 data bits (offset 5) go to
  the register and to the local line, then a loop over \<open>i < 4\<close> copies bits \<open>0..3\<close> of
  the sister line into the local line.
\<close>

definition load_case2 :: "nat \<Rightarrow> nat \<Rightarrow> nat \<Rightarrow> nat \<Rightarrow> nat \<Rightarrow> System \<Rightarrow> System" where
  "load_case2 nodeIndex cpuIndex otherCPU cacheIndex reg s =
     (let s = add_clock 30 s;
          s = fold (\<lambda>i s.
                  let s = set_reg nodeIndex cpuIndex reg i
                            (cache_bit s nodeIndex otherCPU cacheIndex (i + 5)) s;
                      s = set_cache nodeIndex cpuIndex cacheIndex (i + 5)
                            (cache_bit s nodeIndex otherCPU cacheIndex (i + 5)) s
                  in s) [0..<32] s;
          s = fold (\<lambda>i s. set_cache nodeIndex cpuIndex cacheIndex i
                             (cache_bit s nodeIndex otherCPU cacheIndex i) s) [0..<4] s
      in s)"

text \<open>
  Case 3, the home directory entry has state bit 0 clear (uncached \<open>00\<close> or shared
  \<open>01\<close>): a hundred clocks, the word of home memory goes to the register and the local
  line, the line becomes valid with the tag, the entry becomes \<open>01\<close> and the presence bit
  of the requesting node is set.
\<close>

definition load_case3 ::
  "nat \<Rightarrow> nat \<Rightarrow> nat \<Rightarrow> (nat \<Rightarrow> bool) \<Rightarrow> nat \<Rightarrow> nat \<Rightarrow> nat \<Rightarrow> System \<Rightarrow> System" where
  "load_case3 nodeIndex cpuIndex cacheIndex tag homeNode localMemIndex reg s =
     (let s = add_clock 100 s;
          s = fold (\<lambda>i s.
                  let s = set_reg nodeIndex cpuIndex reg i
                            (mem_bit s homeNode localMemIndex i) s;
                      s = set_cache nodeIndex cpuIndex cacheIndex (i + 5)
                            (mem_bit s homeNode localMemIndex i) s
                  in s) [0..<32] s;
          s = set_cache nodeIndex cpuIndex cacheIndex 0 True s;
          s = fold (\<lambda>i s. set_cache nodeIndex cpuIndex cacheIndex (i + 1) (tag i) s) [0..<4] s;
          s = set_dir homeNode localMemIndex 0 False s;
          s = set_dir homeNode localMemIndex 1 True s;
          s = set_dir homeNode localMemIndex (2 + nodeIndex) True s
      in s)"

text \<open>
  Case 4, everything else. \<^verbatim>\<open>dirtyNode\<close> starts at \<open>-1\<close> and the loop
  \<^verbatim>\<open>for (i = 0; i < 4 && dirtyNode < 0; i++)\<close> takes the first node whose presence bit is
  set; once \<^verbatim>\<open>dirtyNode\<close> is set the loop condition fails, which the fold expresses by
  leaving the value alone. \<^verbatim>\<open>dirtyCPU\<close> starts at \<open>-1\<close> and becomes 0 or 1 when that
  processor of the dirty node holds the line.
\<close>

definition find_dirtyNode :: "System \<Rightarrow> nat \<Rightarrow> nat \<Rightarrow> int" where
  "find_dirtyNode s homeNode localMemIndex =
     fold (\<lambda>i dirtyNode.
             if dirtyNode < 0 \<and> dir_bit s homeNode localMemIndex (2 + i)
             then int i else dirtyNode) [0..<4] (- 1)"

definition find_dirtyCPU :: "System \<Rightarrow> nat \<Rightarrow> nat \<Rightarrow> (nat \<Rightarrow> bool) \<Rightarrow> int" where
  "find_dirtyCPU s dirtyNode cacheIndex tag =
     (if line_hit s dirtyNode 0 cacheIndex tag then 0
      else if line_hit s dirtyNode 1 cacheIndex tag then 1
      else - 1)"

text \<open>
  With a negative \<^verbatim>\<open>dirtyNode\<close> or \<^verbatim>\<open>dirtyCPU\<close> the source indexes
  \<^verbatim>\<open>systemNodes[-1]\<close> or \<^verbatim>\<open>caches[-1]\<close>; the model returns \<open>OutOfBounds\<close>. Otherwise the
  chained assignment of the source gives the same bit of the dirty line to the line
  \<^verbatim>\<open>systemNodes[homeNode]->caches[cpuIndex][cacheIndex]\<close>, to the register of the requester
  and to home memory (\<open>load_case4_install\<close>); then that line of the home node is made
  valid with the tag, the entry becomes \<open>01\<close> and presence bit \<^verbatim>\<open>2+homeNode\<close> is set.
\<close>

definition load_case4_install ::
  "nat \<Rightarrow> nat \<Rightarrow> nat \<Rightarrow> (nat \<Rightarrow> bool) \<Rightarrow> nat \<Rightarrow> nat \<Rightarrow> nat \<Rightarrow> nat \<Rightarrow> nat \<Rightarrow>
   System \<Rightarrow> System" where
  "load_case4_install nodeIndex cpuIndex cacheIndex tag homeNode localMemIndex reg
       dirtyNode dirtyCPU s =
     (let s = fold (\<lambda>i s.
                  let v = cache_bit s dirtyNode dirtyCPU cacheIndex (i + 5);
                      s = set_cache homeNode cpuIndex cacheIndex (i + 5) v s;
                      s = set_reg nodeIndex cpuIndex reg i v s;
                      s = set_mem homeNode localMemIndex i v s
                  in s) [0..<32] s;
          s = set_cache homeNode cpuIndex cacheIndex 0 True s;
          s = set_cache homeNode cpuIndex cacheIndex 1 (tag 0) s;
          s = set_cache homeNode cpuIndex cacheIndex 2 (tag 1) s;
          s = set_cache homeNode cpuIndex cacheIndex 3 (tag 2) s;
          s = set_cache homeNode cpuIndex cacheIndex 4 (tag 3) s;
          s = set_dir homeNode localMemIndex 0 False s;
          s = set_dir homeNode localMemIndex 1 True s;
          s = set_dir homeNode localMemIndex (2 + homeNode) True s
      in s)"

definition load_case4 ::
  "nat \<Rightarrow> nat \<Rightarrow> nat \<Rightarrow> (nat \<Rightarrow> bool) \<Rightarrow> nat \<Rightarrow> nat \<Rightarrow> nat \<Rightarrow> System \<Rightarrow> error + System" where
  "load_case4 nodeIndex cpuIndex cacheIndex tag homeNode localMemIndex reg s =
     (let s = add_clock 135 s;
          dirtyNode = find_dirtyNode s homeNode localMemIndex
      in if dirtyNode < 0 then Inl OutOfBounds
         else
           let dirtyCPU = find_dirtyCPU s (nat dirtyNode) cacheIndex tag
           in if dirtyCPU < 0 then Inl OutOfBounds
              else Inr (load_case4_install nodeIndex cpuIndex cacheIndex tag homeNode
                          localMemIndex reg (nat dirtyNode) (nat dirtyCPU) s))"

text \<open>
  The load branch of \<^verbatim>\<open>memoryAccess\<close> (opcode \<open>100011\<close>). \<^verbatim>\<open>nodeIndex\<close>, \<^verbatim>\<open>cpuIndex\<close> and
  \<^verbatim>\<open>reg\<close> index arrays of sizes 4, 2 and 2 at once; \<^verbatim>\<open>homeNode\<close> indexes
  \<^verbatim>\<open>systemNodes\<close> from case 3 on.
\<close>

definition memoryAccess_load :: "nat \<Rightarrow> nat \<Rightarrow> nat \<Rightarrow> nat \<Rightarrow> System \<Rightarrow> error + System" where
  "memoryAccess_load nodeIndex cpuIndex memoryAddress reg s =
     (if 4 \<le> nodeIndex \<or> 2 \<le> cpuIndex \<or> 2 \<le> reg then Inl OutOfBounds
      else
        let cacheIndex = memoryAddress mod 4;
            tag = tag_of memoryAddress
        in if line_hit s nodeIndex cpuIndex cacheIndex tag
           then Inr (load_case1 nodeIndex cpuIndex cacheIndex reg s)
           else
             let s = writeBack nodeIndex cpuIndex cacheIndex s;
                 otherCPU = (cpuIndex + 1) mod 2
             in if line_hit s nodeIndex otherCPU cacheIndex tag
                then Inr (load_case2 nodeIndex cpuIndex otherCPU cacheIndex reg s)
                else
                  let homeNode = memoryAddress div 16;
                      localMemIndex = memoryAddress mod 16
                  in if 4 \<le> homeNode then Inl OutOfBounds
                     else if (\<not> dir_bit s homeNode localMemIndex 0 \<and>
                              \<not> dir_bit s homeNode localMemIndex 1) \<or>
                             (\<not> dir_bit s homeNode localMemIndex 0 \<and>
                              dir_bit s homeNode localMemIndex 1)
                     then Inr (load_case3 nodeIndex cpuIndex cacheIndex tag
                                 homeNode localMemIndex reg s)
                     else load_case4 nodeIndex cpuIndex cacheIndex tag
                            homeNode localMemIndex reg s)"

section \<open>Stores\<close>

text \<open>
  The invalidation loop, which the source writes out twice (write hit and write miss):
  for each node \<open>i < 4\<close> whose presence bit is set and each processor \<open>j < 2\<close>, a valid
  line with the tag at \<^verbatim>\<open>cacheIndex\<close> gets its valid bit cleared.
\<close>

definition invalidate :: "nat \<Rightarrow> nat \<Rightarrow> nat \<Rightarrow> (nat \<Rightarrow> bool) \<Rightarrow> System \<Rightarrow> System" where
  "invalidate homeNode localMemIndex cacheIndex tag s =
     fold (\<lambda>i s.
             if dir_bit s homeNode localMemIndex (i + 2)
             then fold (\<lambda>j s. if line_hit s i j cacheIndex tag
                               then set_cache i j cacheIndex 0 False s else s) [0..<2] s
             else s) [0..<4] s"

text \<open>
  Write hit: one clock, the entry becomes \<open>11\<close>, the copies are invalidated, then the
  local line is marked valid, its tag written and the register copied into its data.
\<close>

definition store_hit ::
  "nat \<Rightarrow> nat \<Rightarrow> nat \<Rightarrow> (nat \<Rightarrow> bool) \<Rightarrow> nat \<Rightarrow> nat \<Rightarrow> nat \<Rightarrow> System \<Rightarrow> System" where
  "store_hit nodeIndex cpuIndex cacheIndex tag homeNode localMemIndex reg s =
     (let s = add_clock 1 s;
          s = set_dir homeNode localMemIndex 0 True s;
          s = set_dir homeNode localMemIndex 1 True s;
          s = invalidate homeNode localMemIndex cacheIndex tag s;
          s = set_cache nodeIndex cpuIndex cacheIndex 0 True s;
          s = fold (\<lambda>i s. set_cache nodeIndex cpuIndex cacheIndex (i + 1) (tag i) s) [0..<4] s;
          s = fold (\<lambda>i s. set_cache nodeIndex cpuIndex cacheIndex (i + 5)
                             (reg_bit s nodeIndex cpuIndex reg i) s) [0..<32] s
      in s)"

text \<open>
  Write miss: a hundred clocks, the register goes to home memory, the copies are
  invalidated, and an entry in state \<open>11\<close> becomes \<open>01\<close>.
\<close>

definition store_miss ::
  "nat \<Rightarrow> nat \<Rightarrow> nat \<Rightarrow> (nat \<Rightarrow> bool) \<Rightarrow> nat \<Rightarrow> nat \<Rightarrow> nat \<Rightarrow> System \<Rightarrow> System" where
  "store_miss nodeIndex cpuIndex cacheIndex tag homeNode localMemIndex reg s =
     (let s = add_clock 100 s;
          s = fold (\<lambda>i s. set_mem homeNode localMemIndex i
                             (reg_bit s nodeIndex cpuIndex reg i) s) [0..<32] s;
          s = invalidate homeNode localMemIndex cacheIndex tag s;
          s = (if dir_bit s homeNode localMemIndex 0 \<and> dir_bit s homeNode localMemIndex 1
               then set_dir homeNode localMemIndex 1 True
                      (set_dir homeNode localMemIndex 0 False s)
               else s)
      in s)"

definition writeToMem ::
  "nat \<Rightarrow> nat \<Rightarrow> string \<Rightarrow> nat \<Rightarrow> nat \<Rightarrow> System \<Rightarrow> error + System" where
  "writeToMem nodeIndex cpuIndex opCode memoryAddress reg s =
     (if opCode = ''101011'' then
        if 4 \<le> nodeIndex \<or> 2 \<le> cpuIndex \<or> 2 \<le> reg then Inl OutOfBounds
        else
          let cacheIndex = memoryAddress mod 4;
              tag = tag_of memoryAddress;
              homeNode = memoryAddress div 16;
              localMemIndex = memoryAddress mod 16
          in if 4 \<le> homeNode then Inl OutOfBounds
             else if line_hit s nodeIndex cpuIndex cacheIndex tag
             then Inr (store_hit nodeIndex cpuIndex cacheIndex tag homeNode localMemIndex reg s)
             else Inr (store_miss nodeIndex cpuIndex cacheIndex tag homeNode localMemIndex reg s)
      else Inr s)"

section \<open>The memory-access stage\<close>

text \<open>
  \<^verbatim>\<open>memoryAccess\<close>: the load branch when the opcode is \<open>100011\<close>, then the call of
  \<^verbatim>\<open>writeToMem\<close> when it is \<open>101011\<close>; any other opcode leaves the state alone.
\<close>

definition memoryAccess ::
  "nat \<Rightarrow> nat \<Rightarrow> string \<Rightarrow> nat \<Rightarrow> nat \<Rightarrow> System \<Rightarrow> error + System" where
  "memoryAccess nodeIndex cpuIndex opCode memoryAddress reg s =
     (case (if opCode = ''100011''
            then memoryAccess_load nodeIndex cpuIndex memoryAddress reg s
            else Inr s) of
        Inl e \<Rightarrow> Inl e
      | Inr s \<Rightarrow>
          if opCode = ''101011''
          then writeToMem nodeIndex cpuIndex opCode memoryAddress reg s
          else Inr s)"

section \<open>Initialisation and the run\<close>

text \<open>
  \<^verbatim>\<open>decimalTo32BitBinary\<close> fills the array from index 31 down to 0 with the parity of the
  value, halving it each time. Its only caller passes values from 5 to 68, so the
  argument is a natural number here.
\<close>

definition decimalTo32BitBinary :: "nat \<Rightarrow> nat \<Rightarrow> bool" where
  "decimalTo32BitBinary decimalValue =
     fst (fold (\<lambda>i (binaryNumber, decimalValue).
                  (binaryNumber(i := (decimalValue mod 2 = 1)), decimalValue div 2))
               (rev [0..<32]) (\<lambda>_. False, decimalValue))"

text \<open>
  \<^verbatim>\<open>initializeSystem\<close> sets the clock to 0, allocates each node with \<^verbatim>\<open>new Node\<close> and writes
  only its memory. The struct has no constructor, so the registers, caches and directory
  of a fresh node hold whatever the allocation returns: \<open>fresh i\<close> stands for the contents
  of the \<open>i\<close>-th allocation and is a parameter. (The memory of \<open>fresh i\<close> is overwritten.)
\<close>

definition zeroNode :: Node where
  "zeroNode = \<lparr>registers = (\<lambda>_ _ _. False), caches = (\<lambda>_ _ _. False),
               memory = (\<lambda>_ _. False), directory = (\<lambda>_ _. False)\<rparr>"

definition initializeSystem :: "(nat \<Rightarrow> Node) \<Rightarrow> System" where
  "initializeSystem fresh =
     fold (\<lambda>i s.
        let s = s\<lparr>systemNodes := (systemNodes s)(i := fresh i)\<rparr>
        in fold (\<lambda>j s.
             let memoryValue = i * 16 + j + 5;
                 binaryMemValue = decimalTo32BitBinary memoryValue
             in fold (\<lambda>k s. set_mem i j k (binaryMemValue k) s) [0..<32] s) [0..<16] s)
       [0..<4] \<lparr>systemNodes = (\<lambda>_. zeroNode), clockCount = 0\<rparr>"

text \<open>The same iteration with the outer loop stopped after \<open>p\<close> nodes, for induction on \<open>p\<close>.\<close>

definition init_upto :: "(nat \<Rightarrow> Node) \<Rightarrow> nat \<Rightarrow> System" where
  "init_upto fresh p =
     fold (\<lambda>i s.
        let s = s\<lparr>systemNodes := (systemNodes s)(i := fresh i)\<rparr>
        in fold (\<lambda>j s.
             let memoryValue = i * 16 + j + 5;
                 binaryMemValue = decimalTo32BitBinary memoryValue
             in fold (\<lambda>k s. set_mem i j k (binaryMemValue k) s) [0..<32] s) [0..<16] s)
       [0..<p] \<lparr>systemNodes = (\<lambda>_. zeroNode), clockCount = 0\<rparr>"

text \<open>
  The initial state when every allocation returns zero-filled storage, which is what the
  comment of \<^verbatim>\<open>initializeSystem\<close> expects ("all 0s except for in memory"). The concrete runs
  below start here.
\<close>

definition zeroStart :: System where
  "zeroStart = initializeSystem (\<lambda>_. zeroNode)"

text \<open>
  One access is the argument list of \<^verbatim>\<open>memoryAccess\<close> as \<^verbatim>\<open>execute\<close> passes it:
  node, processor, opcode, word address and register. The main loop performs the
  accesses in order; an out-of-bounds access ends the run, and so does an access that
  pushes the 32-bit counter past its largest value.
\<close>

type_synonym access = "nat \<times> nat \<times> string \<times> nat \<times> nat"

fun step :: "access \<Rightarrow> System \<Rightarrow> error + System" where
  "step (nodeIndex, cpuIndex, opCode, memoryAddress, reg) s =
     (case memoryAccess nodeIndex cpuIndex opCode memoryAddress reg s of
        Inl e \<Rightarrow> Inl e
      | Inr s' \<Rightarrow> if clockCount s' \<le> 2147483647 then Inr s' else Inl SignedOverflow)"

fun run :: "access list \<Rightarrow> System \<Rightarrow> error + System" where
  "run [] s = Inr s"
| "run (a # as) s = (case step a s of Inl e \<Rightarrow> Inl e | Inr s' \<Rightarrow> run as s')"

section \<open>Directory states, presence sets and access classes\<close>

text \<open>
  The directory entry of word address \<open>a\<close> lives at node \<open>a div 16\<close>, index
  \<open>a mod 16\<close>. Its two state bits read \<open>00\<close> uncached, \<open>01\<close> shared, \<open>11\<close> dirty
  (the comment on \<^verbatim>\<open>struct Node\<close>); bits 2-5 are the presence bits of nodes 0-3.
\<close>

definition isUncached :: "System \<Rightarrow> nat \<Rightarrow> bool" where
  "isUncached s a \<longleftrightarrow>
     \<not> dir_bit s (a div 16) (a mod 16) 0 \<and> \<not> dir_bit s (a div 16) (a mod 16) 1"

definition isShared :: "System \<Rightarrow> nat \<Rightarrow> bool" where
  "isShared s a \<longleftrightarrow>
     \<not> dir_bit s (a div 16) (a mod 16) 0 \<and> dir_bit s (a div 16) (a mod 16) 1"

definition isDirty :: "System \<Rightarrow> nat \<Rightarrow> bool" where
  "isDirty s a \<longleftrightarrow>
     dir_bit s (a div 16) (a mod 16) 0 \<and> dir_bit s (a div 16) (a mod 16) 1"

definition presence :: "System \<Rightarrow> nat \<Rightarrow> nat set" where
  "presence s a = set (filter (\<lambda>i. dir_bit s (a div 16) (a mod 16) (2 + i)) [0..<4])"

text \<open>
  The tag field of a cache line read as an unsigned number, bit 1 of the line being the
  most significant of the four, and the value of a 32-bit word, bit 0 being the most
  significant. These follow the specification (a line is valid bit, 4-bit unsigned tag,
  data word; the tag of address \<open>A\<close> is \<open>A/4\<close> in 4 bits) and use none of the functions of
  the program.
\<close>

definition tag_value :: "System \<Rightarrow> nat \<Rightarrow> nat \<Rightarrow> nat \<Rightarrow> nat" where
  "tag_value s n c l =
     (if cache_bit s n c l 1 then 8 else 0) + (if cache_bit s n c l 2 then 4 else 0) +
     (if cache_bit s n c l 3 then 2 else 0) + (if cache_bit s n c l 4 then 1 else 0)"


text \<open>
  Processor \<open>c\<close> of node \<open>n\<close> holds a valid line with the tag of address \<open>a\<close>: the line
  at cache index \<open>a mod 4\<close> is valid and its tag field reads \<open>a div 4\<close> (in four bits).
\<close>

definition holds_line :: "System \<Rightarrow> nat \<Rightarrow> nat \<Rightarrow> nat \<Rightarrow> bool" where
  "holds_line s n c a \<longleftrightarrow>
     cache_bit s n c (a mod 4) 0 \<and> tag_value s n c (a mod 4) = (a div 4) mod 16"

definition holders :: "System \<Rightarrow> nat \<Rightarrow> nat set" where
  "holders s a = set (filter (\<lambda>n. holds_line s n 0 a \<or> holds_line s n 1 a) [0..<4])"

definition line_equals_memory :: "System \<Rightarrow> nat \<Rightarrow> nat \<Rightarrow> nat \<Rightarrow> bool" where
  "line_equals_memory s n c a \<longleftrightarrow>
     (\<forall>i<32. cache_bit s n c (a mod 4) (i + 5) = mem_bit s (a div 16) (a mod 16) i)"

text \<open>
  The central directory invariant in the words of the specification: presence equals the
  set of holders, dirty iff exactly one presence bit, shared iff presence is non-empty and
  every copy in a presence-set node equals home memory, uncached iff presence is empty.
\<close>

definition central_invariant :: "System \<Rightarrow> bool" where
  "central_invariant s \<longleftrightarrow>
     (\<forall>a<64.
        presence s a = holders s a \<and>
        (isDirty s a \<longleftrightarrow> card (presence s a) = 1) \<and>
        (isShared s a \<longleftrightarrow>
           presence s a \<noteq> {} \<and>
           (\<forall>n\<in>presence s a. \<forall>c<2. holds_line s n c a \<longrightarrow> line_equals_memory s n c a)) \<and>
        (isUncached s a \<longleftrightarrow> presence s a = {}))"

text \<open>
  The part of the invariant that the engine keeps, for one address: every holder is in the
  presence set; the entry is uncached, shared or dirty; it is uncached exactly when the
  presence set is empty; the copies of an entry that is not dirty equal home memory; and a
  dirty entry has at most one valid copy.
\<close>

definition coherent :: "System \<Rightarrow> nat \<Rightarrow> bool" where
  "coherent s a \<longleftrightarrow>
     holders s a \<subseteq> presence s a \<and>
     (isUncached s a \<or> isShared s a \<or> isDirty s a) \<and>
     (isUncached s a \<longleftrightarrow> presence s a = {}) \<and>
     (\<not> isDirty s a \<longrightarrow>
        (\<forall>n<4. \<forall>c<2. holds_line s n c a \<longrightarrow> line_equals_memory s n c a)) \<and>
     (isDirty s a \<longrightarrow>
        (\<forall>n<4. \<forall>c<2. \<forall>n'<4. \<forall>c'<2.
           holds_line s n c a \<longrightarrow> holds_line s n' c' a \<longrightarrow> n' = n \<and> c' = c))"

definition coherent_all :: "System \<Rightarrow> bool" where
  "coherent_all s \<longleftrightarrow> (\<forall>a<64. coherent s a)"

text \<open>
  The classification of an access in the words of the specification (sections 4.2 and
  4.3), read off the state before the access, and the cost of each class.
\<close>

datatype access_case =
  LocalHit | SiblingHit | HomeCleanFetch | DirtyMigration | WriteHit | WriteMiss

definition classify :: "access \<Rightarrow> System \<Rightarrow> access_case option" where
  "classify x s =
     (case x of (nodeId, cpuId, opcode, address, registerSelector) \<Rightarrow>
        if opcode = ''100011'' then
          (if holds_line s nodeId cpuId address then Some LocalHit
           else if holds_line s nodeId ((cpuId + 1) mod 2) address then Some SiblingHit
           else if isUncached s address \<or> isShared s address then Some HomeCleanFetch
           else Some DirtyMigration)
        else if opcode = ''101011'' then
          (if holds_line s nodeId cpuId address then Some WriteHit else Some WriteMiss)
        else None)"

fun case_cost :: "access_case option \<Rightarrow> int" where
  "case_cost (Some LocalHit) = 1"
| "case_cost (Some SiblingHit) = 30"
| "case_cost (Some HomeCleanFetch) = 100"
| "case_cost (Some DirtyMigration) = 135"
| "case_cost (Some WriteHit) = 1"
| "case_cost (Some WriteMiss) = 100"
| "case_cost None = 0"

text \<open>The sum of the classified costs along a run, each access classified in its own pre-state.\<close>

fun total_cost :: "access list \<Rightarrow> System \<Rightarrow> int" where
  "total_cost [] s = 0"
| "total_cost (x # xs) s =
     case_cost (classify x s) +
     (case step x s of Inl e \<Rightarrow> 0 | Inr s' \<Rightarrow> total_cost xs s')"

text \<open>No access of the run is served from the sibling cache.\<close>

fun no_sibling_hit :: "access list \<Rightarrow> System \<Rightarrow> bool" where
  "no_sibling_hit [] s = True"
| "no_sibling_hit (x # xs) s =
     (classify x s \<noteq> Some SiblingHit \<and>
      (case step x s of Inl e \<Rightarrow> True | Inr s' \<Rightarrow> no_sibling_hit xs s'))"

section \<open>Frame lemmas for single assignments\<close>

lemma reg_bit_set_reg [simp]:
  "reg_bit (set_reg n c r i v s) n' c' r' i' =
     (if n' = n \<and> c' = c \<and> r' = r \<and> i' = i then v else reg_bit s n' c' r' i')"
  by (simp add: reg_bit_def set_reg_def)

lemma reg_bit_set_cache [simp]: "reg_bit (set_cache n c l i v s) = reg_bit s"
  by (intro ext) (simp add: reg_bit_def set_cache_def)

lemma reg_bit_set_mem [simp]: "reg_bit (set_mem n w i v s) = reg_bit s"
  by (intro ext) (simp add: reg_bit_def set_mem_def)

lemma reg_bit_set_dir [simp]: "reg_bit (set_dir n e i v s) = reg_bit s"
  by (intro ext) (simp add: reg_bit_def set_dir_def)

lemma reg_bit_add_clock [simp]: "reg_bit (add_clock k s) = reg_bit s"
  by (intro ext) (simp add: reg_bit_def add_clock_def)

lemma cache_bit_set_cache [simp]:
  "cache_bit (set_cache n c l i v s) n' c' l' i' =
     (if n' = n \<and> c' = c \<and> l' = l \<and> i' = i then v else cache_bit s n' c' l' i')"
  by (simp add: cache_bit_def set_cache_def)

lemma cache_bit_set_reg [simp]: "cache_bit (set_reg n c r i v s) = cache_bit s"
  by (intro ext) (simp add: cache_bit_def set_reg_def)

lemma cache_bit_set_mem [simp]: "cache_bit (set_mem n w i v s) = cache_bit s"
  by (intro ext) (simp add: cache_bit_def set_mem_def)

lemma cache_bit_set_dir [simp]: "cache_bit (set_dir n e i v s) = cache_bit s"
  by (intro ext) (simp add: cache_bit_def set_dir_def)

lemma cache_bit_add_clock [simp]: "cache_bit (add_clock k s) = cache_bit s"
  by (intro ext) (simp add: cache_bit_def add_clock_def)

lemma mem_bit_set_mem [simp]:
  "mem_bit (set_mem n w i v s) n' w' i' =
     (if n' = n \<and> w' = w \<and> i' = i then v else mem_bit s n' w' i')"
  by (simp add: mem_bit_def set_mem_def)

lemma mem_bit_set_reg [simp]: "mem_bit (set_reg n c r i v s) = mem_bit s"
  by (intro ext) (simp add: mem_bit_def set_reg_def)

lemma mem_bit_set_cache [simp]: "mem_bit (set_cache n c l i v s) = mem_bit s"
  by (intro ext) (simp add: mem_bit_def set_cache_def)

lemma mem_bit_set_dir [simp]: "mem_bit (set_dir n e i v s) = mem_bit s"
  by (intro ext) (simp add: mem_bit_def set_dir_def)

lemma mem_bit_add_clock [simp]: "mem_bit (add_clock k s) = mem_bit s"
  by (intro ext) (simp add: mem_bit_def add_clock_def)

lemma dir_bit_set_dir [simp]:
  "dir_bit (set_dir n e i v s) n' e' i' =
     (if n' = n \<and> e' = e \<and> i' = i then v else dir_bit s n' e' i')"
  by (simp add: dir_bit_def set_dir_def)

lemma dir_bit_set_reg [simp]: "dir_bit (set_reg n c r i v s) = dir_bit s"
  by (intro ext) (simp add: dir_bit_def set_reg_def)

lemma dir_bit_set_cache [simp]: "dir_bit (set_cache n c l i v s) = dir_bit s"
  by (intro ext) (simp add: dir_bit_def set_cache_def)

lemma dir_bit_set_mem [simp]: "dir_bit (set_mem n w i v s) = dir_bit s"
  by (intro ext) (simp add: dir_bit_def set_mem_def)

lemma dir_bit_add_clock [simp]: "dir_bit (add_clock k s) = dir_bit s"
  by (intro ext) (simp add: dir_bit_def add_clock_def)

lemma clockCount_set_reg [simp]: "clockCount (set_reg n c r i v s) = clockCount s"
  by (simp add: set_reg_def)

lemma clockCount_set_cache [simp]: "clockCount (set_cache n c l i v s) = clockCount s"
  by (simp add: set_cache_def)

lemma clockCount_set_mem [simp]: "clockCount (set_mem n w i v s) = clockCount s"
  by (simp add: set_mem_def)

lemma clockCount_set_dir [simp]: "clockCount (set_dir n e i v s) = clockCount s"
  by (simp add: set_dir_def)

lemma clockCount_add_clock [simp]: "clockCount (add_clock k s) = clockCount s + k"
  by (simp add: add_clock_def)

lemma line_hit_cong:
  "cache_bit s' n c l = cache_bit s n c l \<Longrightarrow> line_hit s' n c l tag = line_hit s n c l tag"
  by (simp add: line_hit_def)

section \<open>Closed forms of the copy loop bodies\<close>


lemma reg_bit_fold [simp]:
  "(\<And>x s. reg_bit (f x s) = reg_bit s) \<Longrightarrow> reg_bit (fold f xs s) = reg_bit s"
  by (induction xs arbitrary: s) simp_all

lemma cache_bit_fold [simp]:
  "(\<And>x s. cache_bit (f x s) = cache_bit s) \<Longrightarrow> cache_bit (fold f xs s) = cache_bit s"
  by (induction xs arbitrary: s) simp_all

lemma mem_bit_fold [simp]:
  "(\<And>x s. mem_bit (f x s) = mem_bit s) \<Longrightarrow> mem_bit (fold f xs s) = mem_bit s"
  by (induction xs arbitrary: s) simp_all

lemma dir_bit_fold [simp]:
  "(\<And>x s. dir_bit (f x s) = dir_bit s) \<Longrightarrow> dir_bit (fold f xs s) = dir_bit s"
  by (induction xs arbitrary: s) simp_all

lemma clockCount_fold [simp]:
  "(\<And>x s. clockCount (f x s) = clockCount s) \<Longrightarrow> clockCount (fold f xs s) = clockCount s"
  by (induction xs arbitrary: s) simp_all

lemma loop_reg_from_cache [simp]:
  "reg_bit (fold (\<lambda>i s. set_reg n c r i (cache_bit s n2 c2 l (i + d)) s) [0..<k] s) n' c' r' j =
     (if n' = n \<and> c' = c \<and> r' = r \<and> j < k then cache_bit s n2 c2 l (j + d)
      else reg_bit s n' c' r' j)"
  by (induction k arbitrary: n' c' r' j) (auto simp: less_Suc_eq)

lemma loop_case2_data_cache [simp]:
  "c2 \<noteq> c \<Longrightarrow>
   cache_bit (fold (\<lambda>i s. set_cache n c l (i + 5) (cache_bit s n c2 l (i + 5))
                         (set_reg n c r i (cache_bit s n c2 l (i + 5)) s)) [0..<k] s) n' c' l' j =
     (if n' = n \<and> c' = c \<and> l' = l \<and> 5 \<le> j \<and> j < k + 5 then cache_bit s n c2 l j
      else cache_bit s n' c' l' j)"
  by (induction k arbitrary: n' c' l' j) (auto simp: less_Suc_eq)

lemma loop_case2_data_reg [simp]:
  "c2 \<noteq> c \<Longrightarrow>
   reg_bit (fold (\<lambda>i s. set_cache n c l (i + 5) (cache_bit s n c2 l (i + 5))
                         (set_reg n c r i (cache_bit s n c2 l (i + 5)) s)) [0..<k] s) n' c' r' j =
     (if n' = n \<and> c' = c \<and> r' = r \<and> j < k then cache_bit s n c2 l (j + 5)
      else reg_bit s n' c' r' j)"
  by (induction k arbitrary: n' c' r' j) (auto simp: less_Suc_eq)

lemma loop_case2_head [simp]:
  "c2 \<noteq> c \<Longrightarrow>
   cache_bit (fold (\<lambda>i s. set_cache n c l i (cache_bit s n c2 l i) s) [0..<k] s) n' c' l' j =
     (if n' = n \<and> c' = c \<and> l' = l \<and> j < k then cache_bit s n c2 l j
      else cache_bit s n' c' l' j)"
  by (induction k arbitrary: n' c' l' j) (auto simp: less_Suc_eq)

lemma loop_case3_data_cache [simp]:
  "cache_bit (fold (\<lambda>i s. set_cache n c l (i + 5) (mem_bit s h w i)
                         (set_reg n c r i (mem_bit s h w i) s)) [0..<k] s) n' c' l' j =
     (if n' = n \<and> c' = c \<and> l' = l \<and> 5 \<le> j \<and> j < k + 5 then mem_bit s h w (j - 5)
      else cache_bit s n' c' l' j)"
  by (induction k arbitrary: n' c' l' j) (auto simp: less_Suc_eq)

lemma loop_case3_data_reg [simp]:
  "reg_bit (fold (\<lambda>i s. set_cache n c l (i + 5) (mem_bit s h w i)
                         (set_reg n c r i (mem_bit s h w i) s)) [0..<k] s) n' c' r' j =
     (if n' = n \<and> c' = c \<and> r' = r \<and> j < k then mem_bit s h w j
      else reg_bit s n' c' r' j)"
  by (induction k arbitrary: n' c' r' j) (auto simp: less_Suc_eq)

lemma loop_tag [simp]:
  "cache_bit (fold (\<lambda>i. set_cache n c l (Suc i) (tag i)) [0..<k] s) n' c' l' j =
     (if n' = n \<and> c' = c \<and> l' = l \<and> 1 \<le> j \<and> j < k + 1 then tag (j - 1)
      else cache_bit s n' c' l' j)"
  by (induction k arbitrary: n' c' l' j) (auto simp: less_Suc_eq)

lemma loop_case4_cache [simp]:
  "cache_bit (fold (\<lambda>i s. set_mem h w i (cache_bit s dn dc l (i + 5))
                         (set_reg n c r i (cache_bit s dn dc l (i + 5))
                            (set_cache h c l (i + 5) (cache_bit s dn dc l (i + 5)) s))) [0..<k] s) n' c' l' j =
     (if n' = h \<and> c' = c \<and> l' = l \<and> 5 \<le> j \<and> j < k + 5 then cache_bit s dn dc l j
      else cache_bit s n' c' l' j)"
  by (induction k arbitrary: n' c' l' j) (auto simp: less_Suc_eq)

lemma loop_case4_reg [simp]:
  "reg_bit (fold (\<lambda>i s. set_mem h w i (cache_bit s dn dc l (i + 5))
                         (set_reg n c r i (cache_bit s dn dc l (i + 5))
                            (set_cache h c l (i + 5) (cache_bit s dn dc l (i + 5)) s))) [0..<k] s) n' c' r' j =
     (if n' = n \<and> c' = c \<and> r' = r \<and> j < k then cache_bit s dn dc l (j + 5)
      else reg_bit s n' c' r' j)"
  by (induction k arbitrary: n' c' r' j) (auto simp: less_Suc_eq)

lemma loop_case4_mem [simp]:
  "mem_bit (fold (\<lambda>i s. set_mem h w i (cache_bit s dn dc l (i + 5))
                         (set_reg n c r i (cache_bit s dn dc l (i + 5))
                            (set_cache h c l (i + 5) (cache_bit s dn dc l (i + 5)) s))) [0..<k] s) n' w' j =
     (if n' = h \<and> w' = w \<and> j < k then cache_bit s dn dc l (j + 5)
      else mem_bit s n' w' j)"
  by (induction k arbitrary: n' w' j) (auto simp: less_Suc_eq)

lemma loop_cache_from_reg [simp]:
  "cache_bit (fold (\<lambda>i s. set_cache n c l (i + 5) (reg_bit s n2 c2 r i) s) [0..<k] s) n' c' l' j =
     (if n' = n \<and> c' = c \<and> l' = l \<and> 5 \<le> j \<and> j < k + 5 then reg_bit s n2 c2 r (j - 5)
      else cache_bit s n' c' l' j)"
  by (induction k arbitrary: n' c' l' j) (auto simp: less_Suc_eq)

lemma loop_mem_from_reg [simp]:
  "mem_bit (fold (\<lambda>i s. set_mem h w i (reg_bit s n c r i) s) [0..<k] s) n' w' j =
     (if n' = h \<and> w' = w \<and> j < k then reg_bit s n c r j else mem_bit s n' w' j)"
  by (induction k arbitrary: n' w' j) (auto simp: less_Suc_eq)

lemma loop_mem_from_cache [simp]:
  "mem_bit (fold (\<lambda>i s. set_mem h w i (cache_bit s n c l (i + 5)) s) [0..<k] s) n' w' j =
     (if n' = h \<and> w' = w \<and> j < k then cache_bit s n c l (j + 5) else mem_bit s n' w' j)"
  by (induction k arbitrary: n' w' j) (auto simp: less_Suc_eq)

lemma loop_mem_const [simp]:
  "mem_bit (fold (\<lambda>k s. set_mem h w k (b k) s) [0..<m] s) n' w' j =
     (if n' = h \<and> w' = w \<and> j < m then b j else mem_bit s n' w' j)"
  by (induction m arbitrary: n' w' j) (auto simp: less_Suc_eq)


lemma upt_0_2: "[0..<2] = [0, 1::nat]"
  by (simp add: upt_conv_Cons)

lemma upt_0_4: "[0..<4] = [0, 1, 2, 3::nat]"
  by (simp add: upt_conv_Cons)

lemma upt_1_5: "[1..<5] = [1, 2, 3, 4::nat]"
  by (simp add: upt_conv_Cons)

lemma line_hit_add_clock [simp]: "line_hit (add_clock k s) = line_hit s"
  by (intro ext) (simp add: line_hit_def)

lemma line_hit_set_reg [simp]: "line_hit (set_reg n c r i v s) = line_hit s"
  by (intro ext) (simp add: line_hit_def)

lemma line_hit_set_mem [simp]: "line_hit (set_mem n w i v s) = line_hit s"
  by (intro ext) (simp add: line_hit_def)

lemma line_hit_set_dir [simp]: "line_hit (set_dir n e i v s) = line_hit s"
  by (intro ext) (simp add: line_hit_def)

lemma line_hit_eqI: "cache_bit s' = cache_bit s \<Longrightarrow> line_hit s' = line_hit s"
  by (intro ext) (simp add: line_hit_def)

lemma line_hit_fold [simp]:
  "(\<And>x s. cache_bit (f x s) = cache_bit s) \<Longrightarrow> line_hit (fold f xs s) = line_hit s"
  by (rule line_hit_eqI) simp

lemma find_dirtyNode_eqI: "dir_bit s' = dir_bit s \<Longrightarrow> find_dirtyNode s' = find_dirtyNode s"
  by (intro ext) (simp add: find_dirtyNode_def)

lemma find_dirtyCPU_eqI: "cache_bit s' = cache_bit s \<Longrightarrow> find_dirtyCPU s' = find_dirtyCPU s"
  by (intro ext) (simp add: find_dirtyCPU_def line_hit_def)

section \<open>What each branch does to every bit\<close>

subsection \<open>load_case1\<close>

lemma load_case1_reg:
  "reg_bit (load_case1 n c l r s) n' c' r' j =
     (if n' = n \<and> c' = c \<and> r' = r \<and> j < 32 then cache_bit s n c l (j + 4)
      else reg_bit s n' c' r' j)"
  by (simp add: load_case1_def)

lemma load_case1_frame:
  "cache_bit (load_case1 n c l r s) = cache_bit s"
  "mem_bit (load_case1 n c l r s) = mem_bit s"
  "dir_bit (load_case1 n c l r s) = dir_bit s"
  "clockCount (load_case1 n c l r s) = clockCount s + 1"
  by (simp_all add: load_case1_def)

subsection \<open>load_case2\<close>

lemma load_case2_reg:
  "o' \<noteq> c \<Longrightarrow> reg_bit (load_case2 n c o' l r s) n' c' r' j =
     (if n' = n \<and> c' = c \<and> r' = r \<and> j < 32 then cache_bit s n o' l (j + 5)
      else reg_bit s n' c' r' j)"
  by (simp add: load_case2_def Let_def)

lemma load_case2_cache:
  "o' \<noteq> c \<Longrightarrow> cache_bit (load_case2 n c o' l r s) n' c' l' j =
     (if n' = n \<and> c' = c \<and> l' = l \<and> (j < 4 \<or> 5 \<le> j \<and> j < 37) then cache_bit s n o' l j
      else cache_bit s n' c' l' j)"
  apply (simp add: load_case2_def Let_def)
  by blast

lemma load_case2_frame:
  "mem_bit (load_case2 n c o' l r s) = mem_bit s"
  "dir_bit (load_case2 n c o' l r s) = dir_bit s"
  "clockCount (load_case2 n c o' l r s) = clockCount s + 30"
  by (simp_all add: load_case2_def Let_def)

subsection \<open>load_case3\<close>

lemma load_case3_reg:
  "reg_bit (load_case3 n c l tag h w r s) n' c' r' j =
     (if n' = n \<and> c' = c \<and> r' = r \<and> j < 32 then mem_bit s h w j
      else reg_bit s n' c' r' j)"
  by (simp add: load_case3_def Let_def)

lemma load_case3_cache:
  "cache_bit (load_case3 n c l tag h w r s) n' c' l' j =
     (if n' = n \<and> c' = c \<and> l' = l \<and> j < 37
      then (if j = 0 then True else if j < 5 then tag (j - 1) else mem_bit s h w (j - 5))
      else cache_bit s n' c' l' j)"
  apply (simp add: load_case3_def Let_def)
  by blast

lemma load_case3_dir:
  "dir_bit (load_case3 n c l tag h w r s) n' e' j =
     (if n' = h \<and> e' = w \<and> (j = 0 \<or> j = 1 \<or> j = 2 + n) then j \<noteq> 0
      else dir_bit s n' e' j)"
  apply (simp add: load_case3_def Let_def)
  by blast

lemma load_case3_frame:
  "mem_bit (load_case3 n c l tag h w r s) = mem_bit s"
  "clockCount (load_case3 n c l tag h w r s) = clockCount s + 100"
  by (simp_all add: load_case3_def Let_def)

subsection \<open>load_case4_install\<close>


lemma load_case4_install_cache:
  "cache_bit (load_case4_install n c l tag h w r dn dc s) n' c' l' j =
     (if n' = h \<and> c' = c \<and> l' = l \<and> j < 37
      then (if j = 0 then True else if j < 5 then tag (j - 1) else cache_bit s dn dc l j)
      else cache_bit s n' c' l' j)"
  apply (simp add: load_case4_install_def Let_def)
  by arith

lemma load_case4_install_mem:
  "mem_bit (load_case4_install n c l tag h w r dn dc s) n' w' j =
     (if n' = h \<and> w' = w \<and> j < 32 then cache_bit s dn dc l (j + 5)
      else mem_bit s n' w' j)"
  by (simp add: load_case4_install_def Let_def)

lemma load_case4_install_dir:
  "dir_bit (load_case4_install n c l tag h w r dn dc s) n' e' j =
     (if n' = h \<and> e' = w \<and> (j = 0 \<or> j = 1 \<or> j = 2 + h) then j \<noteq> 0
      else dir_bit s n' e' j)"
  apply (simp add: load_case4_install_def Let_def)
  by blast

lemma load_case4_install_clock:
  "clockCount (load_case4_install n c l tag h w r dn dc s) = clockCount s"
  by (simp add: load_case4_install_def Let_def)


subsection \<open>writeBack\<close>

lemma writeBack_frame:
  "reg_bit (writeBack n c l s) = reg_bit s"
  "cache_bit (writeBack n c l s) = cache_bit s"
  "dir_bit (writeBack n c l s) = dir_bit s"
  "clockCount (writeBack n c l s) = clockCount s"
  by (simp_all add: writeBack_def Let_def)

lemma line_hit_writeBack: "line_hit (writeBack n c l s) = line_hit s"
  by (rule line_hit_eqI) (rule writeBack_frame)

lemma writeBack_mem:
  "mem_bit (writeBack n c l s) n' w' j =
     (if cache_bit s n c l 0 \<and>
         dir_bit s (writeBack_address s n c l div 16) (writeBack_address s n c l mod 16) 0 \<and>
         dir_bit s (writeBack_address s n c l div 16) (writeBack_address s n c l mod 16) 1 \<and>
         n' = writeBack_address s n c l div 16 \<and> w' = writeBack_address s n c l mod 16 \<and>
         j < 32
      then cache_bit s n c l (j + 5) else mem_bit s n' w' j)"
  by (simp add: writeBack_def Let_def)

subsection \<open>invalidate\<close>

lemma invalidate_frame:
  "reg_bit (invalidate h w l tag s) = reg_bit s"
  "mem_bit (invalidate h w l tag s) = mem_bit s"
  "dir_bit (invalidate h w l tag s) = dir_bit s"
  "clockCount (invalidate h w l tag s) = clockCount s"
  by (simp_all add: invalidate_def)

lemma line_hit_set_cache_invalid [simp]:
  "line_hit (set_cache n c l 0 False s) n' c' l' tag \<longleftrightarrow>
     line_hit s n' c' l' tag \<and> \<not> (n' = n \<and> c' = c \<and> l' = l)"
  by (auto simp: line_hit_def)

lemma invalidate_inner_cache:
  "cache_bit (fold (\<lambda>j s. if line_hit s i j l tag then set_cache i j l 0 False s else s)
                [0..<2] s) n' c' l' b =
     (if n' = i \<and> c' < 2 \<and> l' = l \<and> b = 0 \<and> line_hit s i c' l tag then False
      else cache_bit s n' c' l' b)"
  by (cases "c' = 0"; cases "c' = Suc 0"; auto simp: upt_0_2 less_2_cases_iff)

lemma invalidate_inner_hit:
  "line_hit (fold (\<lambda>j s. if line_hit s i j l tag then set_cache i j l 0 False s else s)
                [0..<2] s) n' c' l tag \<longleftrightarrow>
     line_hit s n' c' l tag \<and> \<not> (n' = i \<and> c' < 2)"
  by (cases "c' = 0"; cases "c' = Suc 0"; auto simp: upt_0_2 less_2_cases_iff)

lemma invalidate_cache:
  "cache_bit (invalidate h w l tag s) n' c' l' j =
     (if n' < 4 \<and> c' < 2 \<and> l' = l \<and> j = 0 \<and> dir_bit s h w (n' + 2) \<and> line_hit s n' c' l tag
      then False else cache_bit s n' c' l' j)"
proof -
  consider "n' = 0" | "n' = 1" | "n' = 2" | "n' = 3" | "4 \<le> n'"
    by arith
  then show ?thesis
    by cases
      (simp_all add: invalidate_def upt_0_4 invalidate_inner_cache invalidate_inner_hit)
qed


lemma line_hit_invalidate:
  "line_hit (invalidate h w l tag s) n' c' l tag \<longleftrightarrow>
     line_hit s n' c' l tag \<and> \<not> (n' < 4 \<and> c' < 2 \<and> dir_bit s h w (n' + 2))"
  unfolding line_hit_def [of "invalidate h w l tag s"]
  by (auto simp: invalidate_cache) (simp_all add: line_hit_def)

subsection \<open>store_hit\<close>

lemma store_hit_frame:
  "reg_bit (store_hit n c l tag h w r s) = reg_bit s"
  "mem_bit (store_hit n c l tag h w r s) = mem_bit s"
  "clockCount (store_hit n c l tag h w r s) = clockCount s + 1"
  by (simp_all add: store_hit_def Let_def invalidate_frame)

lemma store_hit_dir:
  "dir_bit (store_hit n c l tag h w r s) n' e' j =
     (if n' = h \<and> e' = w \<and> j < 2 then True else dir_bit s n' e' j)"
  by (auto simp: store_hit_def Let_def invalidate_frame less_2_cases_iff)

lemma store_hit_cache:
  "cache_bit (store_hit n c l tag h w r s) n' c' l' j =
     (if n' = n \<and> c' = c \<and> l' = l \<and> j < 37
      then (if j = 0 then True else if j < 5 then tag (j - 1) else reg_bit s n c r (j - 5))
      else if n' < 4 \<and> c' < 2 \<and> l' = l \<and> j = 0 \<and> dir_bit s h w (n' + 2) \<and>
              line_hit s n' c' l tag
      then False else cache_bit s n' c' l' j)"
  by (simp add: store_hit_def Let_def invalidate_frame invalidate_cache)

subsection \<open>store_miss\<close>

lemma store_miss_frame:
  "reg_bit (store_miss n c l tag h w r s) = reg_bit s"
  "clockCount (store_miss n c l tag h w r s) = clockCount s + 100"
  by (simp_all add: store_miss_def Let_def invalidate_frame)

lemma store_miss_mem:
  "mem_bit (store_miss n c l tag h w r s) n' w' j =
     (if n' = h \<and> w' = w \<and> j < 32 then reg_bit s n c r j else mem_bit s n' w' j)"
  by (simp add: store_miss_def Let_def invalidate_frame)

lemma store_miss_dir:
  "dir_bit (store_miss n c l tag h w r s) n' e' j =
     (if n' = h \<and> e' = w \<and> j = 0 \<and> dir_bit s h w 1 then False else dir_bit s n' e' j)"
  by (auto simp: store_miss_def Let_def invalidate_frame)

lemma store_miss_cache:
  "cache_bit (store_miss n c l tag h w r s) n' c' l' j =
     (if n' < 4 \<and> c' < 2 \<and> l' = l \<and> j = 0 \<and> dir_bit s h w (n' + 2) \<and>
         line_hit s n' c' l tag
      then False else cache_bit s n' c' l' j)"
  by (simp add: store_miss_def Let_def invalidate_frame invalidate_cache)

subsection \<open>The searches of case 4\<close>

lemma find_dirtyNode_eq:
  "find_dirtyNode s h w =
     (if dir_bit s h w 2 then 0 else if dir_bit s h w 3 then 1
      else if dir_bit s h w 4 then 2 else if dir_bit s h w 5 then 3 else - 1)"
  unfolding find_dirtyNode_def upt_0_4 by (simp add: eval_nat_numeral)

lemma writeBack_address_eq:
  "writeBack_address s n c l =
     (2 ^ (length (filter (\<lambda>i. cache_bit s n c l i) [1, 2, 3, 4])) - 1) * 4 + l"
  unfolding writeBack_address_def upt_1_5 by (simp add: Let_def)


subsection \<open>Which case an access takes\<close>

lemma otherCPU_neq: "(c + 1) mod 2 \<noteq> (c::nat)"
  by presburger

lemma home_in_range: "a < 64 \<Longrightarrow> \<not> 4 \<le> a div (16::nat)"
  by arith

lemma memoryAccess_load_eq:
  "memoryAccess n c ''100011'' a r s = memoryAccess_load n c a r s"
  by (simp add: memoryAccess_def split: sum.splits)

lemma memoryAccess_store_eq:
  "memoryAccess n c ''101011'' a r s = writeToMem n c ''101011'' a r s"
  by (simp add: memoryAccess_def)

lemma memoryAccess_other:
  "opCode \<noteq> ''100011'' \<Longrightarrow> opCode \<noteq> ''101011'' \<Longrightarrow> memoryAccess n c opCode a r s = Inr s"
  by (simp add: memoryAccess_def)

lemma load_is_case1:
  "n < 4 \<Longrightarrow> c < 2 \<Longrightarrow> r < 2 \<Longrightarrow> line_hit s n c (a mod 4) (tag_of a) \<Longrightarrow>
   memoryAccess n c ''100011'' a r s = Inr (load_case1 n c (a mod 4) r s)"
  by (simp add: memoryAccess_load_eq memoryAccess_load_def)

lemma load_is_case2:
  "n < 4 \<Longrightarrow> c < 2 \<Longrightarrow> r < 2 \<Longrightarrow> \<not> line_hit s n c (a mod 4) (tag_of a) \<Longrightarrow>
   line_hit s n ((c + 1) mod 2) (a mod 4) (tag_of a) \<Longrightarrow>
   memoryAccess n c ''100011'' a r s =
     Inr (load_case2 n c ((c + 1) mod 2) (a mod 4) r (writeBack n c (a mod 4) s))"
  by (simp add: memoryAccess_load_eq memoryAccess_load_def Let_def line_hit_writeBack)

lemma load_is_case3:
  "n < 4 \<Longrightarrow> c < 2 \<Longrightarrow> r < 2 \<Longrightarrow> a < 64 \<Longrightarrow> \<not> line_hit s n c (a mod 4) (tag_of a) \<Longrightarrow>
   \<not> line_hit s n ((c + 1) mod 2) (a mod 4) (tag_of a) \<Longrightarrow>
   \<not> dir_bit s (a div 16) (a mod 16) 0 \<Longrightarrow>
   memoryAccess n c ''100011'' a r s =
     Inr (load_case3 n c (a mod 4) (tag_of a) (a div 16) (a mod 16) r
            (writeBack n c (a mod 4) s))"
  by (simp add: memoryAccess_load_eq memoryAccess_load_def Let_def line_hit_writeBack
      writeBack_frame home_in_range)

lemma load_is_case4:
  "n < 4 \<Longrightarrow> c < 2 \<Longrightarrow> r < 2 \<Longrightarrow> a < 64 \<Longrightarrow> \<not> line_hit s n c (a mod 4) (tag_of a) \<Longrightarrow>
   \<not> line_hit s n ((c + 1) mod 2) (a mod 4) (tag_of a) \<Longrightarrow>
   dir_bit s (a div 16) (a mod 16) 0 \<Longrightarrow>
   memoryAccess n c ''100011'' a r s =
     load_case4 n c (a mod 4) (tag_of a) (a div 16) (a mod 16) r (writeBack n c (a mod 4) s)"
  by (simp add: memoryAccess_load_eq memoryAccess_load_def Let_def line_hit_writeBack
      writeBack_frame home_in_range)

lemma load_case4_found:
  "find_dirtyNode s h w = int dn \<Longrightarrow> find_dirtyCPU s dn l tag = int dc \<Longrightarrow>
   load_case4 n c l tag h w r s =
     Inr (load_case4_install n c l tag h w r dn dc (add_clock 135 s))"
  by (simp add: load_case4_def Let_def find_dirtyNode_eqI [of "add_clock 135 s" s]
      find_dirtyCPU_eqI [of "add_clock 135 s" s])

lemma store_is_hit:
  "n < 4 \<Longrightarrow> c < 2 \<Longrightarrow> r < 2 \<Longrightarrow> a < 64 \<Longrightarrow> line_hit s n c (a mod 4) (tag_of a) \<Longrightarrow>
   memoryAccess n c ''101011'' a r s =
     Inr (store_hit n c (a mod 4) (tag_of a) (a div 16) (a mod 16) r s)"
  by (simp add: memoryAccess_store_eq writeToMem_def Let_def home_in_range)

lemma store_is_miss:
  "n < 4 \<Longrightarrow> c < 2 \<Longrightarrow> r < 2 \<Longrightarrow> a < 64 \<Longrightarrow> \<not> line_hit s n c (a mod 4) (tag_of a) \<Longrightarrow>
   memoryAccess n c ''101011'' a r s =
     Inr (store_miss n c (a mod 4) (tag_of a) (a div 16) (a mod 16) r s)"
  by (simp add: memoryAccess_store_eq writeToMem_def Let_def home_in_range)

section \<open>The initial state\<close>

lemma decimalTo32BitBinary_loop:
  "fst (fold (\<lambda>i (binaryNumber, decimalValue).
                (binaryNumber(i := (decimalValue mod 2 = 1)), decimalValue div 2))
             (rev [0..<k]) (b, v::nat)) i =
     (if i < k then (v div 2 ^ (k - 1 - i)) mod 2 = 1 else b i)"
proof (induction k arbitrary: b v)
  case 0
  then show ?case by simp
next
  case (Suc k)
  have "(v div 2) div 2 ^ (k - 1 - i) = v div 2 ^ (k - i)" if "i < k"
  proof -
    have "k - i = Suc (k - 1 - i)" using that by arith
    then show ?thesis by (simp add: div_mult2_eq)
  qed
  with Suc show ?case by (auto simp: less_Suc_eq)
qed

lemma decimalTo32BitBinary_eq:
  "decimalTo32BitBinary v i \<longleftrightarrow> i < 32 \<and> (v div 2 ^ (31 - i)) mod 2 = 1"
  unfolding decimalTo32BitBinary_def decimalTo32BitBinary_loop by simp

lemma fresh_bits [simp]:
  "reg_bit (s\<lparr>systemNodes := (systemNodes s)(i := nd)\<rparr>) n c r j =
     (if n = i then registers nd c r j else reg_bit s n c r j)"
  "cache_bit (s\<lparr>systemNodes := (systemNodes s)(i := nd)\<rparr>) n c l j =
     (if n = i then caches nd c l j else cache_bit s n c l j)"
  "mem_bit (s\<lparr>systemNodes := (systemNodes s)(i := nd)\<rparr>) n w j =
     (if n = i then memory nd w j else mem_bit s n w j)"
  "dir_bit (s\<lparr>systemNodes := (systemNodes s)(i := nd)\<rparr>) n e j =
     (if n = i then directory nd e j else dir_bit s n e j)"
  by (simp_all add: reg_bit_def cache_bit_def mem_bit_def dir_bit_def)

lemma init_words_mem:
  "mem_bit (fold (\<lambda>j. fold (\<lambda>k. set_mem i j k (b j k)) [0..<32]) [0..<m] s) n w k =
     (if n = i \<and> w < m \<and> k < 32 then b w k else mem_bit s n w k)"
  by (induction m arbitrary: n w k) (auto simp: less_Suc_eq)

lemma blank_bits [simp]:
  "reg_bit \<lparr>systemNodes = (\<lambda>_. zeroNode), clockCount = 0\<rparr> n c r j = False"
  "cache_bit \<lparr>systemNodes = (\<lambda>_. zeroNode), clockCount = 0\<rparr> n c l j = False"
  "mem_bit \<lparr>systemNodes = (\<lambda>_. zeroNode), clockCount = 0\<rparr> n w j = False"
  "dir_bit \<lparr>systemNodes = (\<lambda>_. zeroNode), clockCount = 0\<rparr> n e j = False"
  by (simp_all add: reg_bit_def cache_bit_def mem_bit_def dir_bit_def zeroNode_def)

lemma init_upto_reg:
  "reg_bit (init_upto fresh p) n c r j = (n < p \<and> registers (fresh n) c r j)"
  unfolding init_upto_def
  by (induction p arbitrary: n c r j) (auto simp: Let_def less_Suc_eq)

lemma init_upto_cache:
  "cache_bit (init_upto fresh p) n c l j = (n < p \<and> caches (fresh n) c l j)"
  unfolding init_upto_def
  by (induction p arbitrary: n c l j) (auto simp: Let_def less_Suc_eq)

lemma init_upto_dir:
  "dir_bit (init_upto fresh p) n e j = (n < p \<and> directory (fresh n) e j)"
  unfolding init_upto_def
  by (induction p arbitrary: n e j) (auto simp: Let_def less_Suc_eq)

lemma init_upto_clock: "clockCount (init_upto fresh p) = 0"
  unfolding init_upto_def by (induction p) (simp_all add: Let_def)

lemma init_upto_mem:
  "mem_bit (init_upto fresh p) n w j =
     (n < p \<and> (if w < 16 \<and> j < 32 then decimalTo32BitBinary (n * 16 + w + 5) j
               else memory (fresh n) w j))"
  unfolding init_upto_def
  by (induction p arbitrary: n w j) (auto simp: Let_def init_words_mem less_Suc_eq)

lemma initializeSystem_upto: "initializeSystem fresh = init_upto fresh 4"
  by (simp add: initializeSystem_def init_upto_def)

lemma initializeSystem_bits:
  "reg_bit (initializeSystem fresh) n c r j = (n < 4 \<and> registers (fresh n) c r j)"
  "cache_bit (initializeSystem fresh) n c l j = (n < 4 \<and> caches (fresh n) c l j)"
  "dir_bit (initializeSystem fresh) n e j = (n < 4 \<and> directory (fresh n) e j)"
  "clockCount (initializeSystem fresh) = 0"
  "mem_bit (initializeSystem fresh) n w j =
     (n < 4 \<and> (if w < 16 \<and> j < 32 then decimalTo32BitBinary (n * 16 + w + 5) j
               else memory (fresh n) w j))"
  by (simp_all add: initializeSystem_upto init_upto_reg init_upto_cache init_upto_dir
      init_upto_clock init_upto_mem)

lemma init_bits:
  "reg_bit zeroStart n c r j = False"
  "cache_bit zeroStart n c l j = False"
  "dir_bit zeroStart n e j = False"
  "clockCount zeroStart = 0"
  "mem_bit zeroStart n w j =
     (n < 4 \<and> w < 16 \<and> j < 32 \<and> decimalTo32BitBinary (n * 16 + w + 5) j)"
  by (auto simp: zeroStart_def initializeSystem_bits zeroNode_def)

lemma init_no_hit: "\<not> line_hit zeroStart n c l tag"
  by (simp add: line_hit_def init_bits)

section \<open>Tags and words as numbers\<close>

lemma tag_of_bits:
  "tag_of a 0 \<longleftrightarrow> odd (a div 32)" "tag_of a 1 \<longleftrightarrow> odd (a div 16)"
  "tag_of a 2 \<longleftrightarrow> odd (a div 8)" "tag_of a 3 \<longleftrightarrow> odd (a div 4)"
  by (simp_all add: tag_of_def Let_def div_mult2_eq [symmetric] odd_iff_mod_2_eq_one)

lemma dec16:
  fixes q :: nat
  shows "q mod 16 = 8 * (q div 8 mod 2) + 4 * (q div 4 mod 2) + 2 * (q div 2 mod 2) + q mod 2"
proof -
  have "q mod 16 = 8 * (q div 8 mod 2) + q mod 8"
    using mod_mult2_eq [of q 8 2] by simp
  moreover have "q mod 8 = 4 * (q div 4 mod 2) + q mod 4"
    using mod_mult2_eq [of q 4 2] by simp
  moreover have "q mod 4 = 2 * (q div 2 mod 2) + q mod 2"
    using mod_mult2_eq [of q 2 2] by simp
  ultimately show ?thesis by simp
qed

lemma weights:
  fixes e3 e2 e1 e0 :: nat
  assumes "e3 < 2" "e2 < 2" "e1 < 2" "e0 < 2"
  shows "(if b1 then 8 else 0) + (if b2 then 4 else 0) + (if b3 then 2 else 0) +
           (if b4 then 1 else 0) = 8 * e3 + 4 * e2 + 2 * e1 + e0 \<longleftrightarrow>
         (b1 \<longleftrightarrow> e3 = 1) \<and> (b2 \<longleftrightarrow> e2 = 1) \<and> (b3 \<longleftrightarrow> e1 = 1) \<and> (b4 \<longleftrightarrow> e0 = 1)"
proof -
  from assms have "e3 = 0 \<or> e3 = 1" "e2 = 0 \<or> e2 = 1" "e1 = 0 \<or> e1 = 1" "e0 = 0 \<or> e0 = 1"
    by arith+
  then show ?thesis
    by (elim disjE; simp)
qed

lemma four_bits_value:
  fixes q :: nat
  shows "(if b1 then 8 else 0) + (if b2 then 4 else 0) + (if b3 then 2 else 0) +
           (if b4 then 1 else 0) = q mod 16 \<longleftrightarrow>
         (b1 \<longleftrightarrow> odd (q div 8)) \<and> (b2 \<longleftrightarrow> odd (q div 4)) \<and> (b3 \<longleftrightarrow> odd (q div 2)) \<and> (b4 \<longleftrightarrow> odd q)"
proof -
  have o: "odd (q div 8) \<longleftrightarrow> q div 8 mod 2 = 1" "odd (q div 4) \<longleftrightarrow> q div 4 mod 2 = 1"
    "odd (q div 2) \<longleftrightarrow> q div 2 mod 2 = 1" "odd q \<longleftrightarrow> q mod 2 = 1"
    by (simp_all add: odd_iff_mod_2_eq_one)
  show ?thesis
    unfolding o dec16 [of q] by (rule weights) simp_all
qed

lemma holds_line_hit:
  "holds_line s n c a \<longleftrightarrow> line_hit s n c (a mod 4) (tag_of a)"
proof -
  have d: "a div 4 div 8 = a div 32" "a div 4 div 4 = a div 16" "a div 4 div 2 = a div 8"
    by (simp_all add: div_mult2_eq [symmetric])
  show ?thesis
    unfolding holds_line_def tag_value_def line_hit_def tag_of_bits four_bits_value d
    by auto
qed





section \<open>Steps and runs\<close>

lemma step_Inr:
  "memoryAccess n c opCode a r s = Inr s' \<Longrightarrow> clockCount s' \<le> 2147483647 \<Longrightarrow>
   step (n, c, opCode, a, r) s = Inr s'"
  by simp

lemma step_InrD:
  "step (n, c, opCode, a, r) s = Inr s' \<Longrightarrow>
   memoryAccess n c opCode a r s = Inr s' \<and> clockCount s' \<le> 2147483647"
  by (auto split: sum.splits if_splits)

lemma run_Cons_Inr: "step x s = Inr s' \<Longrightarrow> run (x # xs) s = run xs s'"
  by simp

lemma run_single: "step x s = Inr s' \<Longrightarrow> run [x] s = Inr s'"
  by simp

section \<open>Claims\<close>

lemma presence_mem: "i \<in> presence s a \<longleftrightarrow> i < 4 \<and> dir_bit s (a div 16) (a mod 16) (2 + i)"
  by (auto simp: presence_def)

lemma presence_eqI:
  "(\<And>i. i < 4 \<Longrightarrow> dir_bit s' (a div 16) (a mod 16) (2 + i) = dir_bit s (a div 16) (a mod 16) (2 + i))
   \<Longrightarrow> presence s' a = presence s a"
  by (auto simp: presence_mem)




lemma presence_insertI:
  "n < 4 \<Longrightarrow>
   (\<And>i. i < 4 \<Longrightarrow> dir_bit s' (a div 16) (a mod 16) (2 + i) \<longleftrightarrow>
       i = n \<or> dir_bit s (a div 16) (a mod 16) (2 + i))
   \<Longrightarrow> presence s' a = insert n (presence s a)"
  by (auto simp: presence_mem)


lemma cold_load_5:
  "memoryAccess 0 0 ''100011'' 5 0 zeroStart =
     Inr (load_case3 0 0 1 (tag_of 5) 0 5 0 zeroStart)"
proof -
  have "writeBack 0 0 1 zeroStart = zeroStart"
    by (simp add: writeBack_def init_bits)
  moreover have "memoryAccess 0 0 ''100011'' 5 0 zeroStart =
      Inr (load_case3 0 0 (5 mod 4) (tag_of 5) (5 div 16) (5 mod 16) 0
            (writeBack 0 0 (5 mod 4) zeroStart))"
    by (rule load_is_case3) (simp_all add: init_no_hit init_bits)
  ultimately show ?thesis by simp
qed





subsection \<open>Concrete runs\<close>

lemma tag_of_values:
  "tag_of 4 = (\<lambda>i. i = 3)" "tag_of 5 = (\<lambda>i. i = 3)" "tag_of 8 = (\<lambda>i. i = 2)"
  "tag_of 0 = (\<lambda>i. False)"
  by (auto simp: tag_of_def Let_def fun_eq_iff)

lemma writeBack_invalid: "\<not> cache_bit s n c l 0 \<Longrightarrow> writeBack n c l s = s"
  by (simp add: writeBack_def)

lemmas clock_simps = load_case1_frame(4) load_case2_frame(3) load_case3_frame(2)
  load_case4_install_clock store_hit_frame(3) store_miss_frame(2) writeBack_frame(4)
  init_bits(4)

text \<open>
  Claim C5 (local-hit load). The claim says that after a local hit the register equals the
  data word of the line. The loop of case 1 reads the line at offset \<open>i + 4\<close> where every
  other copy loop uses \<open>i + 5\<close>, so the register receives the last tag bit followed by the
  first 31 data bits. After node 0, processor 0 has loaded address 5 (tag \<open>0001\<close>, data the
  encoding of 10), a second load of address 5 is a local hit that costs one clock and
  leaves bit 0 of the register set although bit 0 of the data word is clear.
\<close>

theorem C5_local_hit_reads_offset_4:
  "holds_line (projr (run [(0, 0, ''100011'', 5, 0)] zeroStart)) 0 0 5 \<and>
   \<not> isl (run [(0, 0, ''100011'', 5, 0), (0, 0, ''100011'', 5, 0)] zeroStart) \<and>
   reg_bit (projr (run [(0, 0, ''100011'', 5, 0), (0, 0, ''100011'', 5, 0)] zeroStart))
     0 0 0 0 \<and>
   \<not> cache_bit (projr (run [(0, 0, ''100011'', 5, 0), (0, 0, ''100011'', 5, 0)] zeroStart))
     0 0 1 5 \<and>
   clockCount (projr (run [(0, 0, ''100011'', 5, 0), (0, 0, ''100011'', 5, 0)] zeroStart))
     = clockCount (projr (run [(0, 0, ''100011'', 5, 0)] zeroStart)) + 1"
proof -
  define s1 where "s1 = load_case3 0 0 1 (tag_of 5) 0 5 0 zeroStart"
  define s2 where "s2 = load_case1 0 0 1 0 s1"
  have r1: "run [(0, 0, ''100011'', 5, 0)] zeroStart = Inr s1"
    by (simp add: cold_load_5 s1_def clock_simps)
  have hit: "line_hit s1 0 0 (5 mod 4) (tag_of 5)"
    by (simp add: s1_def line_hit_def load_case3_cache)
  have "memoryAccess 0 0 ''100011'' 5 0 s1 = Inr (load_case1 0 0 (5 mod 4) 0 s1)"
    by (rule load_is_case1) (use hit in simp_all)
  then have r2: "run [(0, 0, ''100011'', 5, 0), (0, 0, ''100011'', 5, 0)] zeroStart = Inr s2"
    by (simp add: cold_load_5 s1_def s2_def clock_simps)
  have "reg_bit s2 0 0 0 0"
    by (simp add: s2_def load_case1_reg s1_def load_case3_cache tag_of_values)
  moreover have "\<not> cache_bit s2 0 0 1 5"
    by (simp add: s2_def load_case1_frame s1_def load_case3_cache init_bits
        decimalTo32BitBinary_eq)
  moreover have "clockCount s2 = clockCount s1 + 1"
    by (simp add: s2_def load_case1_frame)
  moreover have "holds_line s1 0 0 5"
    using hit by (simp add: holds_line_hit)
  ultimately show ?thesis
    unfolding r1 r2 by simp
qed

text \<open>
  Claim C4 (sibling-hit load). The claim says the requester's line takes the valid bit and
  the full four-bit tag of the sibling's line. The loop that copies them runs over
  \<open>i < 4\<close>, that is over the valid bit and the first three tag bits, and leaves bit 4 (the
  last tag bit) of the requester's line as it was. After node 0, processor 0 has loaded
  address 4 (tag \<open>0001\<close>), a load of address 4 by processor 1 of the same node is a
  sibling hit that costs 30 clocks and leaves the directory entry alone, but the
  requester's line ends up valid with tag \<open>0000\<close>: it is a hit for address 0, not for
  address 4.
\<close>

theorem C4_sibling_hit_drops_last_tag_bit:
  "\<not> holds_line (projr (run [(0, 0, ''100011'', 4, 0)] zeroStart)) 0 1 4 \<and>
   holds_line (projr (run [(0, 0, ''100011'', 4, 0)] zeroStart)) 0 0 4 \<and>
   \<not> isl (run [(0, 0, ''100011'', 4, 0), (0, 1, ''100011'', 4, 0)] zeroStart) \<and>
   cache_bit (projr (run [(0, 0, ''100011'', 4, 0), (0, 1, ''100011'', 4, 0)] zeroStart))
     0 0 0 4 \<and>
   \<not> cache_bit (projr (run [(0, 0, ''100011'', 4, 0), (0, 1, ''100011'', 4, 0)] zeroStart))
     0 1 0 4 \<and>
   \<not> holds_line (projr (run [(0, 0, ''100011'', 4, 0), (0, 1, ''100011'', 4, 0)] zeroStart))
     0 1 4 \<and>
   holds_line (projr (run [(0, 0, ''100011'', 4, 0), (0, 1, ''100011'', 4, 0)] zeroStart))
     0 1 0 \<and>
   clockCount (projr (run [(0, 0, ''100011'', 4, 0), (0, 1, ''100011'', 4, 0)] zeroStart))
     = clockCount (projr (run [(0, 0, ''100011'', 4, 0)] zeroStart)) + 30"
proof -
  define s1 where "s1 = load_case3 0 0 0 (tag_of 4) 0 4 0 zeroStart"
  define s2 where "s2 = load_case2 0 1 0 0 0 s1"
  have "memoryAccess 0 0 ''100011'' 4 0 zeroStart =
      Inr (load_case3 0 0 (4 mod 4) (tag_of 4) (4 div 16) (4 mod 16) 0
            (writeBack 0 0 (4 mod 4) zeroStart))"
    by (rule load_is_case3) (simp_all add: init_no_hit init_bits)
  then have m1: "memoryAccess 0 0 ''100011'' 4 0 zeroStart = Inr s1"
    by (simp add: s1_def writeBack_invalid init_bits)
  have own: "\<not> line_hit s1 0 1 (4 mod 4) (tag_of 4)"
    by (simp add: s1_def line_hit_def load_case3_cache init_bits)
  have sib: "line_hit s1 0 ((1 + 1) mod 2) (4 mod 4) (tag_of 4)"
    by (simp add: s1_def line_hit_def load_case3_cache)
  have "memoryAccess 0 1 ''100011'' 4 0 s1 =
      Inr (load_case2 0 1 ((1 + 1) mod 2) (4 mod 4) 0 (writeBack 0 1 (4 mod 4) s1))"
    by (rule load_is_case2) (use own sib in simp_all)
  moreover have "writeBack 0 1 0 s1 = s1"
    by (rule writeBack_invalid) (simp add: s1_def load_case3_cache init_bits)
  ultimately have m2: "memoryAccess 0 1 ''100011'' 4 0 s1 = Inr s2"
    by (simp add: s2_def)
  have k: "clockCount s1 \<le> 2147483647" "clockCount s2 \<le> 2147483647"
    by (simp_all add: s1_def s2_def clock_simps)
  have r1: "run [(0, 0, ''100011'', 4, 0)] zeroStart = Inr s1"
    using k by (simp add: m1)
  have r2: "run [(0, 0, ''100011'', 4, 0), (0, 1, ''100011'', 4, 0)] zeroStart = Inr s2"
    using m1 m2 k by simp
  have c: "cache_bit s2 0 1 0 j = (if j < 4 \<or> 5 \<le> j \<and> j < 37 then cache_bit s1 0 0 0 j
                                    else cache_bit s1 0 1 0 j)" for j
    by (simp add: s2_def load_case2_cache)
  have "cache_bit s2 0 0 0 4"
    by (simp add: s2_def load_case2_cache s1_def load_case3_cache tag_of_values)
  moreover have n4: "\<not> cache_bit s2 0 1 0 4"
    using c [of 4] by (simp add: s1_def load_case3_cache init_bits)
  moreover have "\<not> holds_line s2 0 1 4"
    using n4 by (simp add: holds_line_hit line_hit_def tag_of_values)
  moreover have "holds_line s2 0 1 0"
    using n4 c [of 0] c [of 1] c [of 2] c [of 3]
    by (simp add: holds_line_hit line_hit_def tag_of_values s1_def load_case3_cache)
  moreover have "clockCount s2 = clockCount s1 + 30"
    by (simp add: s2_def load_case2_frame)
  moreover have "\<not> holds_line s1 0 1 4" "holds_line s1 0 0 4"
    using own sib by (simp_all add: holds_line_hit)
  ultimately show ?thesis
    unfolding r1 r2 by simp
qed

text \<open>
  Claim C6 (write-back on eviction). The claim says \<^verbatim>\<open>writeBack\<close> rebuilds the address of
  the evicted line as tag times four plus cache index and writes the line to home memory
  when that word is dirty. In the loop over the tag bits the doubling of the address sits
  inside the test of the bit, so a clear bit does not shift: tag \<open>0010\<close> yields 1, not 2.
  Node 0, processor 0 loads address 8 (memory holds the encoding of 13), stores its
  all-zero second register to address 8 (write hit, entry 8 dirty), then loads address 0,
  which evicts the line. \<^verbatim>\<open>writeBack\<close> computes address 4, finds it uncached and writes
  nothing: home memory at address 8 still holds the old value after the eviction, and the
  stored value is lost.
\<close>

theorem C6_writeBack_wrong_address:
  "\<not> isl (run [(0, 0, ''100011'', 8, 0), (0, 0, ''101011'', 8, 1)] zeroStart) \<and>
   isDirty (projr (run [(0, 0, ''100011'', 8, 0), (0, 0, ''101011'', 8, 1)] zeroStart)) 8 \<and>
   holds_line (projr (run [(0, 0, ''100011'', 8, 0), (0, 0, ''101011'', 8, 1)] zeroStart))
     0 0 8 \<and>
   \<not> cache_bit (projr (run [(0, 0, ''100011'', 8, 0), (0, 0, ''101011'', 8, 1)] zeroStart))
     0 0 0 36 \<and>
   writeBack_address
     (projr (run [(0, 0, ''100011'', 8, 0), (0, 0, ''101011'', 8, 1)] zeroStart)) 0 0 0 = 4 \<and>
   mem_bit (writeBack 0 0 0
     (projr (run [(0, 0, ''100011'', 8, 0), (0, 0, ''101011'', 8, 1)] zeroStart))) 0 8 31 \<and>
   \<not> isl (run [(0, 0, ''100011'', 8, 0), (0, 0, ''101011'', 8, 1), (0, 0, ''100011'', 0, 0)]
            zeroStart) \<and>
   mem_bit (projr (run [(0, 0, ''100011'', 8, 0), (0, 0, ''101011'', 8, 1),
                        (0, 0, ''100011'', 0, 0)] zeroStart)) 0 8 31 \<and>
   \<not> holds_line (projr (run [(0, 0, ''100011'', 8, 0), (0, 0, ''101011'', 8, 1),
                             (0, 0, ''100011'', 0, 0)] zeroStart)) 0 0 8"
proof -
  define s1 where "s1 = load_case3 0 0 0 (tag_of 8) 0 8 0 zeroStart"
  define s2 where "s2 = store_hit 0 0 0 (tag_of 8) 0 8 1 s1"
  define s3 where "s3 = load_case3 0 0 0 (tag_of 0) 0 0 0 s2"
  have "memoryAccess 0 0 ''100011'' 8 0 zeroStart =
      Inr (load_case3 0 0 (8 mod 4) (tag_of 8) (8 div 16) (8 mod 16) 0
            (writeBack 0 0 (8 mod 4) zeroStart))"
    by (rule load_is_case3) (simp_all add: init_no_hit init_bits)
  then have m1: "memoryAccess 0 0 ''100011'' 8 0 zeroStart = Inr s1"
    by (simp add: s1_def writeBack_invalid init_bits)
  have c1: "cache_bit s1 0 0 0 j = (j = 0 \<or> j = 3)" if "j < 5" for j
    using that by (auto simp: s1_def load_case3_cache tag_of_values)
  have hit1: "line_hit s1 0 0 (8 mod 4) (tag_of 8)"
    by (simp add: line_hit_def c1 tag_of_values)
  have "memoryAccess 0 0 ''101011'' 8 1 s1 =
      Inr (store_hit 0 0 (8 mod 4) (tag_of 8) (8 div 16) (8 mod 16) 1 s1)"
    by (rule store_is_hit) (use hit1 in simp_all)
  then have m2: "memoryAccess 0 0 ''101011'' 8 1 s1 = Inr s2"
    by (simp add: s2_def)
  have c2: "cache_bit s2 0 0 0 j =
      (if j < 37 then (if j = 0 then True else if j < 5 then j = 3 else False) else False)" for j
    by (auto simp: s2_def store_hit_cache tag_of_values s1_def load_case3_reg load_case3_cache
        init_bits)
  have d2: "dir_bit s2 0 8 0" "dir_bit s2 0 8 1" "\<not> dir_bit s2 0 4 0" "\<not> dir_bit s2 0 0 0"
    by (simp_all add: s2_def store_hit_dir s1_def load_case3_dir init_bits)
  have a2: "writeBack_address s2 0 0 0 = 4"
    by (simp add: writeBack_address_eq c2)
  have w2: "writeBack 0 0 0 s2 = s2"
    using d2 by (simp add: writeBack_def a2)
  have mem2: "mem_bit s2 0 8 31"
    by (simp add: s2_def store_hit_frame s1_def load_case3_frame init_bits
        decimalTo32BitBinary_eq)
  have own3: "\<not> line_hit s2 0 0 (0 mod 4) (tag_of 0)"
    by (simp add: line_hit_def c2 tag_of_values)
  have sib3: "\<not> line_hit s2 0 ((0 + 1) mod 2) (0 mod 4) (tag_of 0)"
    by (simp add: line_hit_def s2_def store_hit_cache s1_def load_case3_cache init_bits)
  have "memoryAccess 0 0 ''100011'' 0 0 s2 =
      Inr (load_case3 0 0 (0 mod 4) (tag_of 0) (0 div 16) (0 mod 16) 0
            (writeBack 0 0 (0 mod 4) s2))"
    by (rule load_is_case3) (use own3 sib3 d2 in simp_all)
  then have m3: "memoryAccess 0 0 ''100011'' 0 0 s2 = Inr s3"
    by (simp add: s3_def w2)
  have k: "clockCount s1 \<le> 2147483647" "clockCount s2 \<le> 2147483647"
    "clockCount s3 \<le> 2147483647"
    by (simp_all add: s1_def s2_def s3_def clock_simps)
  have r2: "run [(0, 0, ''100011'', 8, 0), (0, 0, ''101011'', 8, 1)] zeroStart = Inr s2"
    using m1 m2 k by simp
  have r3: "run [(0, 0, ''100011'', 8, 0), (0, 0, ''101011'', 8, 1), (0, 0, ''100011'', 0, 0)]
              zeroStart = Inr s3"
    using m1 m2 m3 k by simp
  have "isDirty s2 8"
    using d2 by (simp add: isDirty_def)
  moreover have "holds_line s2 0 0 8"
    by (simp add: holds_line_hit line_hit_def c2 tag_of_values)
  moreover have "\<not> cache_bit s2 0 0 0 36"
    by (simp add: c2)
  moreover have "mem_bit (writeBack 0 0 0 s2) 0 8 31"
    by (simp add: w2 mem2)
  moreover have "mem_bit s3 0 8 31"
    by (simp add: s3_def load_case3_frame mem2)
  moreover have "\<not> holds_line s3 0 0 8"
    by (simp add: holds_line_hit line_hit_def s3_def load_case3_cache tag_of_values)
  ultimately show ?thesis
    unfolding r2 r3 using a2 by simp
qed

lemma cold_load_5_line:
  "line_hit (load_case3 0 0 1 (tag_of 5) 0 5 0 zeroStart) 0 0 1 (tag_of 5)"
  by (simp add: line_hit_def load_case3_cache)


lemma load_case4_owner_missing:
  "find_dirtyNode s h w = int dn \<Longrightarrow> find_dirtyCPU s dn l tag = - 1 \<Longrightarrow>
   load_case4 n c l tag h w r s = Inl OutOfBounds"
  by (simp add: load_case4_def Let_def find_dirtyNode_eqI [of "add_clock 135 s" s]
      find_dirtyCPU_eqI [of "add_clock 135 s" s])

lemma two_sharers_then_store:
  defines "s1 \<equiv> load_case3 0 0 1 (tag_of 5) 0 5 0 zeroStart"
  defines "s2 \<equiv> load_case3 1 0 1 (tag_of 5) 0 5 0 s1"
  defines "s3 \<equiv> store_hit 1 0 1 (tag_of 5) 0 5 0 s2"
  shows "run [(0, 0, ''100011'', 5, 0), (1, 0, ''100011'', 5, 0)] zeroStart = Inr s2"
    and "run [(0, 0, ''100011'', 5, 0), (1, 0, ''100011'', 5, 0), (1, 0, ''101011'', 5, 0)]
           zeroStart = Inr s3"
    and "holds_line s2 1 0 5" and "presence s2 5 = {0, 1}"
    and "isDirty s3 5" and "presence s3 5 = {0, 1}"
    and "holds_line s3 1 0 5" and "\<not> holds_line s3 0 0 5" and "\<not> holds_line s3 0 1 5"
    and "run [(0, 0, ''100011'', 5, 0), (1, 0, ''100011'', 5, 0), (1, 0, ''101011'', 5, 0),
              (2, 0, ''100011'', 5, 0)] zeroStart = Inl OutOfBounds"
    and "holders s3 5 = {1}"
proof -
  have m1: "memoryAccess 0 0 ''100011'' 5 0 zeroStart = Inr s1"
    by (simp add: cold_load_5 s1_def)
  have own2: "\<not> line_hit s1 1 0 (5 mod 4) (tag_of 5)"
    and sib2: "\<not> line_hit s1 1 ((0 + 1) mod 2) (5 mod 4) (tag_of 5)"
    by (simp_all add: s1_def line_hit_def load_case3_cache init_bits)
  have d1: "\<not> dir_bit s1 (5 div 16) (5 mod 16) 0"
    by (simp add: s1_def load_case3_dir)
  have "memoryAccess 1 0 ''100011'' 5 0 s1 =
      Inr (load_case3 1 0 (5 mod 4) (tag_of 5) (5 div 16) (5 mod 16) 0
            (writeBack 1 0 (5 mod 4) s1))"
    using own2 sib2 d1 by (intro load_is_case3) simp_all
  moreover have "writeBack 1 0 1 s1 = s1"
    by (rule writeBack_invalid) (simp add: s1_def load_case3_cache init_bits)
  ultimately have m2: "memoryAccess 1 0 ''100011'' 5 0 s1 = Inr s2"
    by (simp add: s2_def)
  have hit3: "line_hit s2 1 0 (5 mod 4) (tag_of 5)"
    by (simp add: s2_def line_hit_def load_case3_cache)
  have "memoryAccess 1 0 ''101011'' 5 0 s2 =
      Inr (store_hit 1 0 (5 mod 4) (tag_of 5) (5 div 16) (5 mod 16) 0 s2)"
    using hit3 by (intro store_is_hit) simp_all
  then have m3: "memoryAccess 1 0 ''101011'' 5 0 s2 = Inr s3"
    by (simp add: s3_def)
  have k: "clockCount s1 \<le> 2147483647" "clockCount s2 \<le> 2147483647"
    "clockCount s3 \<le> 2147483647"
    by (simp_all add: s1_def s2_def s3_def clock_simps)
  show "run [(0, 0, ''100011'', 5, 0), (1, 0, ''100011'', 5, 0)] zeroStart = Inr s2"
    using m1 m2 k by simp
  show "run [(0, 0, ''100011'', 5, 0), (1, 0, ''100011'', 5, 0), (1, 0, ''101011'', 5, 0)]
           zeroStart = Inr s3"
    using m1 m2 m3 k by simp
  show "holds_line s2 1 0 5"
    using hit3 by (simp add: holds_line_hit)
  have d2: "dir_bit s2 0 5 j = (j = 1 \<or> j = 2 \<or> j = 3)" for j
    by (auto simp: s2_def load_case3_dir s1_def init_bits)
  have d3: "dir_bit s3 0 5 j = (j < 4)" for j
    by (auto simp: s3_def store_hit_dir d2)
  show "presence s2 5 = {0, 1}"
    by (simp add: presence_def upt_0_4 d2 insert_commute)
  show "isDirty s3 5"
    by (simp add: isDirty_def d3)
  show "presence s3 5 = {0, 1}"
    by (simp add: presence_def upt_0_4 d3 insert_commute)
  have hit0: "line_hit s2 0 0 1 (tag_of 5)"
    using cold_load_5_line by (simp add: s2_def s1_def line_hit_def load_case3_cache)
  have v0: "\<not> cache_bit s3 0 c 1 0" for c
    using hit0 d2 [of "Suc (Suc 0)"]
    by (auto simp: s3_def store_hit_cache s2_def load_case3_cache s1_def init_bits)
  have v2: "\<not> cache_bit s3 2 c 1 0" for c
    by (simp add: s3_def store_hit_cache s2_def load_case3_cache s1_def init_bits)
  show "holds_line s3 1 0 5"
    by (simp add: holds_line_hit line_hit_def s3_def store_hit_cache)
  show "\<not> holds_line s3 0 0 5" and "\<not> holds_line s3 0 1 5"
    using v0 [of 0] v0 [of 1] by (simp_all add: holds_line_hit line_hit_def)
  have "memoryAccess 2 0 ''100011'' 5 0 s3 =
      load_case4 2 0 (5 mod 4) (tag_of 5) (5 div 16) (5 mod 16) 0 (writeBack 2 0 (5 mod 4) s3)"
    using v2 [of 0] v2 [of 1] d3 [of 0]
    by (intro load_is_case4) (simp_all add: line_hit_def)
  moreover have "writeBack 2 0 1 s3 = s3"
    using v2 [of 0] by (intro writeBack_invalid) simp
  moreover have "find_dirtyNode s3 0 5 = int 0"
    using d3 [of 2] by (simp add: find_dirtyNode_eq)
  moreover have "find_dirtyCPU s3 0 1 (tag_of 5) = - 1"
    using v0 [of 0] v0 [of 1] by (simp add: find_dirtyCPU_def line_hit_def)
  ultimately have m4: "memoryAccess 2 0 ''100011'' 5 0 s3 = Inl OutOfBounds"
    by (simp add: load_case4_owner_missing)
  show "run [(0, 0, ''100011'', 5, 0), (1, 0, ''100011'', 5, 0), (1, 0, ''101011'', 5, 0),
             (2, 0, ''100011'', 5, 0)] zeroStart = Inl OutOfBounds"
    using m1 m2 m3 m4 k by simp
  have v3: "\<not> cache_bit s3 3 c 1 0" for c
    by (simp add: s3_def store_hit_cache s2_def load_case3_cache s1_def init_bits)
  have h1: "holds_line s3 1 0 5"
    by (simp add: holds_line_hit line_hit_def s3_def store_hit_cache)
  have "\<not> holds_line s3 n c 5" if "n = 0 \<or> n = 2 \<or> n = 3" for n c
    using that v0 [of c] v2 [of c] v3 [of c] by (auto simp: holds_line_def)
  with h1 show "holders s3 5 = {1}"
    by (simp add: holders_def upt_0_4)
qed

text \<open>
  Claim C3 (store write-hit). The claim says the write hit leaves the home entry dirty with
  the requester's node as its only presence bit. The write-hit branch sets the two state
  bits and never touches the presence bits, although the owner search of load case 4
  ("find which node contains the dirty data") takes the first presence bit of a dirty
  entry to be the owner. Nodes 0 and 1 load address 5; node 1, processor 0 stores to it,
  a write hit: the entry is dirty with presence \<open>{0, 1}\<close>, node 1 holds the only valid
  line and node 0 none. The load of address 5 by node 2 then searches node 0, finds no
  line, and indexes the caches with \<open>-1\<close>.
\<close>

theorem C3_write_hit_keeps_presence:
  "\<not> isl (run [(0, 0, ''100011'', 5, 0), (1, 0, ''100011'', 5, 0)] zeroStart) \<and>
   holds_line (projr (run [(0, 0, ''100011'', 5, 0), (1, 0, ''100011'', 5, 0)] zeroStart))
     1 0 5 \<and>
   presence (projr (run [(0, 0, ''100011'', 5, 0), (1, 0, ''100011'', 5, 0)] zeroStart)) 5
     = {0, 1} \<and>
   \<not> isl (run [(0, 0, ''100011'', 5, 0), (1, 0, ''100011'', 5, 0), (1, 0, ''101011'', 5, 0)]
            zeroStart) \<and>
   isDirty (projr (run [(0, 0, ''100011'', 5, 0), (1, 0, ''100011'', 5, 0),
                        (1, 0, ''101011'', 5, 0)] zeroStart)) 5 \<and>
   presence (projr (run [(0, 0, ''100011'', 5, 0), (1, 0, ''100011'', 5, 0),
                         (1, 0, ''101011'', 5, 0)] zeroStart)) 5 = {0, 1} \<and>
   presence (projr (run [(0, 0, ''100011'', 5, 0), (1, 0, ''100011'', 5, 0),
                         (1, 0, ''101011'', 5, 0)] zeroStart)) 5 \<noteq> {1} \<and>
   holds_line (projr (run [(0, 0, ''100011'', 5, 0), (1, 0, ''100011'', 5, 0),
                           (1, 0, ''101011'', 5, 0)] zeroStart)) 1 0 5 \<and>
   \<not> holds_line (projr (run [(0, 0, ''100011'', 5, 0), (1, 0, ''100011'', 5, 0),
                             (1, 0, ''101011'', 5, 0)] zeroStart)) 0 0 5 \<and>
   \<not> holds_line (projr (run [(0, 0, ''100011'', 5, 0), (1, 0, ''100011'', 5, 0),
                             (1, 0, ''101011'', 5, 0)] zeroStart)) 0 1 5 \<and>
   run [(0, 0, ''100011'', 5, 0), (1, 0, ''100011'', 5, 0), (1, 0, ''101011'', 5, 0),
        (2, 0, ''100011'', 5, 0)] zeroStart = Inl OutOfBounds"
  unfolding two_sharers_then_store(1,2,10)
  using two_sharers_then_store(3-9) by simp

subsection \<open>The dirty-owner search\<close>

lemma find_dirtyNode_single:
  assumes "presence s a = {dn}"
  shows "find_dirtyNode s (a div 16) (a mod 16) = int dn"
proof -
  have b: "dir_bit s (a div 16) (a mod 16) (2 + i) \<longleftrightarrow> i = dn" if "i < 4" for i
    using assms that presence_mem [of i s a] by auto
  have "dn \<in> presence s a" using assms by simp
  then have "dn < 4" by (simp add: presence_mem)
  then consider "dn = 0" | "dn = 1" | "dn = 2" | "dn = 3" by arith
  then show ?thesis
    using b [of 0] b [of 1] b [of 2] b [of 3]
    by cases (simp_all add: find_dirtyNode_eq)
qed

lemma find_dirtyCPU_first:
  assumes "dc < 2" and "holds_line s dn dc a" and "dc = 1 \<longrightarrow> \<not> holds_line s dn 0 a"
  shows "find_dirtyCPU s dn (a mod 4) (tag_of a) = int dc"
proof -
  from \<open>dc < 2\<close> consider "dc = 0" | "dc = 1" by arith
  then show ?thesis
    using assms(2,3) by cases (simp_all add: find_dirtyCPU_def holds_line_hit)
qed

lemma load_dirty_migration:
  assumes "n < 4" and "c < 2" and "r < 2" and "a < 64"
    and own: "\<not> holds_line s n c a"
    and sib: "\<not> holds_line s n ((c + 1) mod 2) a"
    and dirty: "isDirty s a"
    and dn: "find_dirtyNode s (a div 16) (a mod 16) = int dn"
    and dc: "find_dirtyCPU s dn (a mod 4) (tag_of a) = int dc"
  shows "memoryAccess n c ''100011'' a r s =
           Inr (load_case4_install n c (a mod 4) (tag_of a) (a div 16) (a mod 16) r dn dc
                  (add_clock 135 (writeBack n c (a mod 4) s)))"
proof -
  let ?w = "writeBack n c (a mod 4) s"
  from dirty have d0: "dir_bit s (a div 16) (a mod 16) 0"
    by (simp add: isDirty_def)
  have "memoryAccess n c ''100011'' a r s =
      load_case4 n c (a mod 4) (tag_of a) (a div 16) (a mod 16) r ?w"
    using assms(1-4) own sib d0 unfolding holds_line_hit by (rule load_is_case4)
  moreover have "find_dirtyNode ?w = find_dirtyNode s"
    by (rule find_dirtyNode_eqI) (rule writeBack_frame)
  moreover have "find_dirtyCPU ?w = find_dirtyCPU s"
    by (rule find_dirtyCPU_eqI) (rule writeBack_frame)
  ultimately show ?thesis
    using dn dc by (simp add: load_case4_found)
qed



lemma write_then_remote_read:
  defines "s1 \<equiv> load_case3 0 0 1 (tag_of 5) 0 5 0 zeroStart"
  defines "s2 \<equiv> store_hit 0 0 1 (tag_of 5) 0 5 1 s1"
  defines "s3 \<equiv> load_case4_install 1 0 1 (tag_of 5) 0 5 0 0 0 (add_clock 135 s2)"
  shows "run [(0, 0, ''100011'', 5, 0), (0, 0, ''101011'', 5, 1)] zeroStart = Inr s2"
    and "run [(0, 0, ''100011'', 5, 0), (0, 0, ''101011'', 5, 1), (1, 0, ''100011'', 5, 0)]
           zeroStart = Inr s3"
    and "isDirty s2 5" and "presence s2 5 = {0}" and "holds_line s2 0 0 5"
    and "\<not> holds_line s2 1 0 5" and "\<not> holds_line s2 1 1 5"
    and "isShared s3 5" and "presence s3 5 = {0}" and "\<not> holds_line s3 1 0 5"
    and "\<forall>i<32. mem_bit s3 0 5 i = cache_bit s2 0 0 1 (i + 5)"
    and "\<forall>i<32. \<not> cache_bit s2 0 0 1 (i + 5)"
    and "mem_bit s1 0 5 30"
    and "clockCount s3 = clockCount s2 + 135"
    and "memoryAccess 1 0 ''100011'' 5 0 s2 = Inr s3"
proof -
  have m1: "memoryAccess 0 0 ''100011'' 5 0 zeroStart = Inr s1"
    by (simp add: cold_load_5 s1_def)
  have hit2: "line_hit s1 0 0 (5 mod 4) (tag_of 5)"
    using cold_load_5_line by (simp add: s1_def)
  have "memoryAccess 0 0 ''101011'' 5 1 s1 =
      Inr (store_hit 0 0 (5 mod 4) (tag_of 5) (5 div 16) (5 mod 16) 1 s1)"
    using hit2 by (intro store_is_hit) simp_all
  then have m2: "memoryAccess 0 0 ''101011'' 5 1 s1 = Inr s2"
    by (simp add: s2_def)
  show dirty: "isDirty s2 5"
    by (simp add: isDirty_def s2_def store_hit_dir)
  have d2: "dir_bit s2 0 5 j = (j < 3)" for j
    by (auto simp: s2_def store_hit_dir s1_def load_case3_dir init_bits)
  show pr: "presence s2 5 = {0}"
    by (simp add: presence_def upt_0_4 d2)
  show h0: "holds_line s2 0 0 5"
    by (simp add: holds_line_hit line_hit_def s2_def store_hit_cache)
  have inv1: "\<not> cache_bit s2 1 c 1 0" for c
    by (simp add: s2_def store_hit_cache s1_def load_case3_cache init_bits)
  show own3: "\<not> holds_line s2 1 0 5" and sib3: "\<not> holds_line s2 1 1 5"
    using inv1 [of 0] inv1 [of 1] by (simp_all add: holds_line_hit line_hit_def)
  have "memoryAccess 1 0 ''100011'' 5 0 s2 =
      Inr (load_case4_install 1 0 (5 mod 4) (tag_of 5) (5 div 16) (5 mod 16) 0 0 0
            (add_clock 135 (writeBack 1 0 (5 mod 4) s2)))"
  proof (rule load_dirty_migration)
    show "\<not> holds_line s2 1 ((0 + 1) mod 2) 5" using sib3 by simp
    show "find_dirtyNode s2 (5 div 16) (5 mod 16) = int 0"
      using pr by (rule find_dirtyNode_single)
    show "find_dirtyCPU s2 0 (5 mod 4) (tag_of 5) = int 0"
      using h0 by (intro find_dirtyCPU_first) simp_all
  qed (use own3 dirty in simp_all)
  moreover have "writeBack 1 0 1 s2 = s2"
    using inv1 [of 0] by (intro writeBack_invalid) simp
  ultimately show m3: "memoryAccess 1 0 ''100011'' 5 0 s2 = Inr s3"
    by (simp add: s3_def)
  have k: "clockCount s1 \<le> 2147483647" "clockCount s2 \<le> 2147483647"
    "clockCount s3 \<le> 2147483647"
    by (simp_all add: s1_def s2_def s3_def clock_simps)
  show "run [(0, 0, ''100011'', 5, 0), (0, 0, ''101011'', 5, 1)] zeroStart = Inr s2"
    using m1 m2 k by simp
  show "run [(0, 0, ''100011'', 5, 0), (0, 0, ''101011'', 5, 1), (1, 0, ''100011'', 5, 0)]
           zeroStart = Inr s3"
    using m1 m2 m3 k by simp
  show "isShared s3 5"
    by (simp add: isShared_def s3_def load_case4_install_dir)
  have d3: "dir_bit s3 0 5 j = (j = 1 \<or> j = 2)" for j
    by (auto simp: s3_def load_case4_install_dir d2)
  show "presence s3 5 = {0}"
    by (simp add: presence_def upt_0_4 d3)
  show "\<not> holds_line s3 1 0 5"
    using inv1 [of 0] by (simp add: holds_line_hit line_hit_def s3_def load_case4_install_cache)
  show "\<forall>i<32. mem_bit s3 0 5 i = cache_bit s2 0 0 1 (i + 5)"
    by (simp add: s3_def load_case4_install_mem)
  show "\<forall>i<32. \<not> cache_bit s2 0 0 1 (i + 5)"
    by (simp add: s2_def store_hit_cache s1_def load_case3_reg init_bits)
  show "mem_bit s1 0 5 30"
    by (simp add: s1_def load_case3_frame init_bits decimalTo32BitBinary_eq)
  show "clockCount s3 = clockCount s2 + 135"
    by (simp add: s3_def load_case4_install_clock)
qed





text \<open>
  Claim C10 (safety of the dirty-owner search). Let a load miss the local and the sibling
  cache and find the home entry dirty, and let the presence set of the entry hold exactly
  one node, which holds a valid line with the tag of the address. Then, on the state the
  search runs on (after the write-back and the clock increment), \<^verbatim>\<open>dirtyNode\<close> is that
  node and \<^verbatim>\<open>dirtyCPU\<close> is 0 or 1, so neither is the sentinel \<open>-1\<close>, and the access
  returns a state, not the out-of-bounds error.
\<close>

theorem C10_dirty_owner_found:
  assumes "n < 4" and "c < 2" and "r < 2" and "a < 64"
    and own: "\<not> holds_line s n c a"
    and sib: "\<not> holds_line s n ((c + 1) mod 2) a"
    and dirty: "isDirty s a"
    and pr: "presence s a = {dn}"
    and held: "holds_line s dn 0 a \<or> holds_line s dn 1 a"
  shows "find_dirtyNode (add_clock 135 (writeBack n c (a mod 4) s)) (a div 16) (a mod 16)
           = int dn \<and>
         find_dirtyCPU (add_clock 135 (writeBack n c (a mod 4) s)) dn (a mod 4) (tag_of a)
           \<in> {0, 1} \<and>
         (\<exists>s'. memoryAccess n c ''100011'' a r s = Inr s')"
proof -
  let ?m = "add_clock 135 (writeBack n c (a mod 4) s)"
  have fn: "find_dirtyNode ?m = find_dirtyNode s"
    by (rule find_dirtyNode_eqI) (simp add: writeBack_frame)
  have fc: "find_dirtyCPU ?m = find_dirtyCPU s"
    by (rule find_dirtyCPU_eqI) (simp add: writeBack_frame)
  have node: "find_dirtyNode s (a div 16) (a mod 16) = int dn"
    using pr by (rule find_dirtyNode_single)
  obtain dc where dc: "dc < 2" "holds_line s dn dc a" "dc = 1 \<longrightarrow> \<not> holds_line s dn 0 a"
  proof (cases "holds_line s dn 0 a")
    case True
    then show ?thesis using that [of 0] by simp
  next
    case False
    with held show ?thesis using that [of 1] by simp
  qed
  have cpu: "find_dirtyCPU s dn (a mod 4) (tag_of a) = int dc"
    using dc by (rule find_dirtyCPU_first)
  from \<open>dc < 2\<close> have "int dc \<in> {0, 1}"
    by auto
  moreover have "\<exists>s'. memoryAccess n c ''100011'' a r s = Inr s'"
    using load_dirty_migration [OF assms(1-4) own sib dirty node cpu] by blast
  ultimately show ?thesis
    using node cpu by (simp add: fn fc)
qed

theorem C10_dirty_owner_found_witness:
  "\<not> holds_line (projr (run [(0, 0, ''100011'', 5, 0), (0, 0, ''101011'', 5, 1)]
                           zeroStart)) 1 0 5 \<and>
   \<not> holds_line (projr (run [(0, 0, ''100011'', 5, 0), (0, 0, ''101011'', 5, 1)]
                           zeroStart)) 1 1 5 \<and>
   isDirty (projr (run [(0, 0, ''100011'', 5, 0), (0, 0, ''101011'', 5, 1)] zeroStart)) 5 \<and>
   presence (projr (run [(0, 0, ''100011'', 5, 0), (0, 0, ''101011'', 5, 1)] zeroStart)) 5
     = {0} \<and>
   holds_line (projr (run [(0, 0, ''100011'', 5, 0), (0, 0, ''101011'', 5, 1)]
                         zeroStart)) 0 0 5 \<and>
   find_dirtyNode (add_clock 135 (writeBack 1 0 1
       (projr (run [(0, 0, ''100011'', 5, 0), (0, 0, ''101011'', 5, 1)] zeroStart)))) 0 5
     = 0 \<and>
   \<not> isl (memoryAccess 1 0 ''100011'' 5 0
            (projr (run [(0, 0, ''100011'', 5, 0), (0, 0, ''101011'', 5, 1)] zeroStart)))"
proof -
  let ?s1 = "load_case3 0 0 1 (tag_of 5) 0 5 0 zeroStart"
  let ?s = "store_hit 0 0 1 (tag_of 5) 0 5 1 ?s1"
  note f = write_then_remote_read
  have sib: "\<not> holds_line ?s 1 ((0 + 1) mod 2) 5"
    using f(7) by simp
  have held: "holds_line ?s 0 0 5 \<or> holds_line ?s 0 1 5"
    using f(5) by simp
  from C10_dirty_owner_found [of 1 0 0 5 ?s 0, OF _ _ _ _ f(6) sib f(3) f(4) held]
  have a: "find_dirtyNode (add_clock 135 (writeBack 1 0 (5 mod 4) ?s)) (5 div 16) (5 mod 16)
             = int 0"
    and b: "\<exists>s'. memoryAccess 1 0 ''100011'' 5 0 ?s = Inr s'"
    by simp_all
  from b obtain s' where m: "memoryAccess 1 0 ''100011'' 5 0 ?s = Inr s'"
    by blast
  show ?thesis
    unfolding f(1) using a m f(3,4,5,6,7) by simp
qed

subsection \<open>The cost of one access\<close>

lemma load_case4_clock:
  "load_case4 n c l tag h w r s = Inr s' \<Longrightarrow> clockCount s' = clockCount s + 135"
  by (auto simp: load_case4_def Let_def load_case4_install_clock split: if_splits)

lemma memoryAccess_load_cost:
  assumes ml: "memoryAccess_load n c a r s = Inr s'"
  shows "clockCount s' = clockCount s + case_cost (classify (n, c, ''100011'', a, r) s)"
proof -
  from ml have g: "n < 4" "c < 2" "r < 2"
    by (auto simp: memoryAccess_load_def split: if_splits)
  note eq = memoryAccess_load_eq [symmetric]
  show ?thesis
  proof (cases "line_hit s n c (a mod 4) (tag_of a)")
    case True
    with g ml have "s' = load_case1 n c (a mod 4) r s"
      by (simp add: eq load_is_case1)
    with True show ?thesis
      by (simp add: classify_def holds_line_hit load_case1_frame)
  next
    case own: False
    show ?thesis
    proof (cases "line_hit s n ((c + 1) mod 2) (a mod 4) (tag_of a)")
      case True
      with g ml own have "s' = load_case2 n c ((c + 1) mod 2) (a mod 4) r (writeBack n c (a mod 4) s)"
        by (simp add: eq load_is_case2)
      with own True show ?thesis
        by (simp add: classify_def holds_line_hit load_case2_frame writeBack_frame)
    next
      case sib: False
      from ml g own sib have h: "\<not> 4 \<le> a div 16"
        by (auto simp: memoryAccess_load_def Let_def line_hit_writeBack split: if_splits)
      then have a: "a < 64" by arith
      show ?thesis
      proof (cases "dir_bit s (a div 16) (a mod 16) 0")
        case False
        with g a ml own sib have "s' = load_case3 n c (a mod 4) (tag_of a) (a div 16) (a mod 16) r
                                        (writeBack n c (a mod 4) s)"
          by (simp add: eq load_is_case3)
        with own sib False show ?thesis
          by (simp add: classify_def holds_line_hit load_case3_frame writeBack_frame
              isUncached_def isShared_def)
      next
        case True
        with g a ml own sib have "load_case4 n c (a mod 4) (tag_of a) (a div 16) (a mod 16) r
                                    (writeBack n c (a mod 4) s) = Inr s'"
          by (simp add: eq load_is_case4)
        then have "clockCount s' = clockCount s + 135"
          by (simp add: load_case4_clock writeBack_frame)
        with own sib True show ?thesis
          by (simp add: classify_def holds_line_hit isUncached_def isShared_def)
      qed
    qed
  qed
qed

lemma writeToMem_cost:
  assumes ws: "writeToMem n c ''101011'' a r s = Inr s'"
  shows "clockCount s' = clockCount s + case_cost (classify (n, c, ''101011'', a, r) s)"
proof -
  from ws have g: "n < 4" "c < 2" "r < 2"
    by (auto simp: writeToMem_def split: if_splits)
  from ws g have "\<not> 4 \<le> a div 16"
    by (auto simp: writeToMem_def Let_def split: if_splits)
  then have a: "a < 64" by arith
  note eq = memoryAccess_store_eq [symmetric]
  show ?thesis
  proof (cases "line_hit s n c (a mod 4) (tag_of a)")
    case True
    with g a ws have "s' = store_hit n c (a mod 4) (tag_of a) (a div 16) (a mod 16) r s"
      by (simp add: eq store_is_hit)
    with True show ?thesis
      by (simp add: classify_def holds_line_hit store_hit_frame)
  next
    case False
    with g a ws have "s' = store_miss n c (a mod 4) (tag_of a) (a div 16) (a mod 16) r s"
      by (simp add: eq store_is_miss)
    with False show ?thesis
      by (simp add: classify_def holds_line_hit store_miss_frame)
  qed
qed

lemma step_cost:
  assumes "step x s = Inr s'"
  shows "clockCount s' = clockCount s + case_cost (classify x s)"
proof -
  obtain n c opCode a r where x: "x = (n, c, opCode, a, r)"
    by (cases x) auto
  from assms x have m: "memoryAccess n c opCode a r s = Inr s'"
    by (simp add: step_InrD)
  consider "opCode = ''100011''" | "opCode = ''101011''"
    | "opCode \<noteq> ''100011''" "opCode \<noteq> ''101011''"
    by blast
  then show ?thesis
  proof cases
    case 1
    with m x show ?thesis
      by (simp add: memoryAccess_load_eq memoryAccess_load_cost)
  next
    case 2
    with m x show ?thesis
      by (simp add: memoryAccess_store_eq writeToMem_cost)
  next
    case 3
    with m x show ?thesis
      by (simp add: memoryAccess_other classify_def)
  qed
qed

lemma case_cost_nonneg: "0 \<le> case_cost k"
  by (cases k rule: case_cost.cases) simp_all

lemma run_cost:
  "run xs s = Inr s' \<Longrightarrow> clockCount s' = clockCount s + total_cost xs s"
proof (induction xs arbitrary: s)
  case Nil
  then show ?case by simp
next
  case (Cons x xs)
  from Cons.prems obtain s1 where s1: "step x s = Inr s1" and rest: "run xs s1 = Inr s'"
    by (auto split: sum.splits)
  from Cons.IH [OF rest] step_cost [OF s1] s1 show ?case
    by simp
qed

lemma total_cost_nonneg: "0 \<le> total_cost xs s"
proof (induction xs arbitrary: s)
  case Nil
  then show ?case by simp
next
  case (Cons x xs)
  then show ?case
    using case_cost_nonneg [of "classify x s"] by (auto split: sum.splits intro: add_nonneg_nonneg)
qed

lemma step_fits: "step x s = Inr s' \<Longrightarrow> clockCount s' \<le> 2147483647"
  by (cases x) (auto split: sum.splits if_splits)

lemma run_fits:
  "run xs s = Inr s' \<Longrightarrow> clockCount s \<le> 2147483647 \<Longrightarrow> clockCount s' \<le> 2147483647"
proof (induction xs arbitrary: s)
  case Nil
  then show ?case by simp
next
  case (Cons x xs)
  from Cons.prems(1) obtain s1 where s1: "step x s = Inr s1" and rest: "run xs s1 = Inr s'"
    by (auto split: sum.splits)
  from Cons.IH [OF rest step_fits [OF s1]] show ?case .
qed

lemma run_append:
  "run (ys @ zs) s = (case run ys s of Inl e \<Rightarrow> Inl e | Inr m \<Rightarrow> run zs m)"
  by (induction ys arbitrary: s) (auto split: sum.splits)

lemma run_monotone: "run xs s = Inr s' \<Longrightarrow> clockCount s \<le> clockCount s'"
  using run_cost [of xs s s'] total_cost_nonneg [of xs s] by simp

text \<open>
  Claim C9 (clock accounting). The clock is 0 after \<^verbatim>\<open>initializeSystem\<close>; along a run it
  never decreases, at whatever point the run is cut; and after any run from the initial
  state it equals the sum, over the accesses, of the cost of the class of each access in
  its own pre-state: 1, 30, 100 or 135 for the four load cases, 1 or 100 for a store hit
  or miss. An instruction with any other opcode is no memory access and contributes
  nothing. The counter of a run that returns has stayed within the 32-bit range; a run
  whose counter would overflow does not return.
\<close>

theorem C9_clock_accounting:
  "(\<forall>fresh. clockCount (initializeSystem fresh) = 0) \<and>
   (\<forall>ys zs s s'. run (ys @ zs) s = Inr s' \<longrightarrow>
      (\<exists>m. run ys s = Inr m \<and> run zs m = Inr s' \<and>
           clockCount s \<le> clockCount m \<and> clockCount m \<le> clockCount s')) \<and>
   (\<forall>fresh xs s'. run xs (initializeSystem fresh) = Inr s' \<longrightarrow>
      clockCount s' = total_cost xs (initializeSystem fresh) \<and>
      0 \<le> clockCount s' \<and> clockCount s' \<le> 2147483647)"
proof (intro conjI allI impI)
  fix fresh
  show "clockCount (initializeSystem fresh) = 0"
    by (simp add: initializeSystem_bits)
next
  fix ys zs s s'
  assume r: "run (ys @ zs) s = Inr s'"
  then obtain m where m: "run ys s = Inr m" "run zs m = Inr s'"
    by (auto simp: run_append split: sum.splits)
  then have "clockCount s \<le> clockCount m" "clockCount m \<le> clockCount s'"
    by (auto intro: run_monotone)
  with m show "\<exists>m. run ys s = Inr m \<and> run zs m = Inr s' \<and>
           clockCount s \<le> clockCount m \<and> clockCount m \<le> clockCount s'"
    by blast
next
  fix fresh xs s'
  assume r: "run xs (initializeSystem fresh) = Inr s'"
  show "clockCount s' = total_cost xs (initializeSystem fresh)"
    using run_cost [OF r] by (simp add: initializeSystem_bits)
  show "0 \<le> clockCount s'"
    using run_monotone [OF r] by (simp add: initializeSystem_bits)
  show "clockCount s' \<le> 2147483647"
    using run_fits [OF r] by (simp add: initializeSystem_bits)
qed

theorem C9_clock_accounting_witness:
  "\<not> isl (run [(0, 0, ''100011'', 5, 0), (0, 0, ''101011'', 5, 1), (1, 0, ''100011'', 5, 0)]
            zeroStart) \<and>
   clockCount (projr (run [(0, 0, ''100011'', 5, 0), (0, 0, ''101011'', 5, 1),
                           (1, 0, ''100011'', 5, 0)] zeroStart)) = 236 \<and>
   total_cost [(0, 0, ''100011'', 5, 0), (0, 0, ''101011'', 5, 1), (1, 0, ''100011'', 5, 0)]
     zeroStart = 236 \<and>
   clockCount (projr (run [(0, 0, ''100011'', 5, 0), (0, 0, ''101011'', 5, 1)] zeroStart))
     = 101"
proof -
  let ?xs = "[(0, 0, ''100011'', 5, 0), (0, 0, ''101011'', 5, 1), (1, 0, ''100011'', 5, 0)]"
  let ?s1 = "load_case3 0 0 1 (tag_of 5) 0 5 0 zeroStart"
  let ?s2 = "store_hit 0 0 1 (tag_of 5) 0 5 1 ?s1"
  let ?s3 = "load_case4_install 1 0 1 (tag_of 5) 0 5 0 0 0 (add_clock 135 ?s2)"
  have r: "run ?xs (initializeSystem (\<lambda>_. zeroNode)) = Inr ?s3"
    using write_then_remote_read(2) by (simp add: zeroStart_def)
  have clk: "clockCount ?s3 = 236" "clockCount ?s2 = 101"
    by (simp_all add: clock_simps)
  from C9_clock_accounting [THEN conjunct2, THEN conjunct2, rule_format, OF r]
  have "clockCount ?s3 = total_cost ?xs zeroStart"
    by (simp add: zeroStart_def)
  with clk show ?thesis
    unfolding write_then_remote_read(1,2) by simp
qed

subsection \<open>What the directory keeps\<close>

text \<open>
  The predicate \<open>coherent\<close> is the part of the invariant that survives presence bits
  that are never cleared: holders are in the presence set, clean copies equal home memory,
  a dirty word has one valid copy at most. The lemmas of this part show that every access
  other than a sibling hit keeps it for all 64 words.
\<close>

lemma entry_inj: "b div 16 = a div 16 \<Longrightarrow> b mod 16 = a mod 16 \<Longrightarrow> b = (a::nat)"
  by (metis div_mult_mod_eq)

lemma holds_line_unique:
  assumes "holds_line s n c a" and "holds_line s n c b" and "a mod 4 = b mod 4"
    and "a < 64" and "b < 64"
  shows "a = b"
proof -
  from assms(1-3) have "a div 4 mod 16 = b div 4 mod 16"
    by (simp add: holds_line_def)
  moreover from assms(4,5) have "a div 4 < 16" "b div 4 < 16"
    by arith+
  ultimately have "a div 4 = b div 4"
    by simp
  with assms(3) show ?thesis
    by (metis div_mult_mod_eq)
qed

lemma holds_line_cong:
  "(\<And>j. j < 5 \<Longrightarrow> cache_bit s' n c (a mod 4) j = cache_bit s n c (a mod 4) j) \<Longrightarrow>
   holds_line s' n c a = holds_line s n c a"
  by (simp add: holds_line_def tag_value_def)

lemma line_equals_memory_cong:
  "(\<And>i. i < 32 \<Longrightarrow> cache_bit s' n c (a mod 4) (i + 5) = cache_bit s n c (a mod 4) (i + 5)) \<Longrightarrow>
   (\<And>i. i < 32 \<Longrightarrow> mem_bit s' (a div 16) (a mod 16) i = mem_bit s (a div 16) (a mod 16) i) \<Longrightarrow>
   line_equals_memory s' n c a = line_equals_memory s n c a"
  by (simp add: line_equals_memory_def)

lemma entry_cong:
  assumes "dir_bit s' (b div 16) (b mod 16) = dir_bit s (b div 16) (b mod 16)"
  shows "isDirty s' b = isDirty s b" "isShared s' b = isShared s b"
    "isUncached s' b = isUncached s b" "presence s' b = presence s b"
  using assms by (simp_all add: isDirty_def isShared_def isUncached_def presence_def)

lemma holders_subset_iff:
  "holders s a \<subseteq> presence s a \<longleftrightarrow>
     (\<forall>n<4. \<forall>c<2. holds_line s n c a \<longrightarrow> n \<in> presence s a)"
proof -
  have "n \<in> holders s a \<longleftrightarrow> n < 4 \<and> (\<exists>c<2. holds_line s n c a)" for n
    by (auto simp: holders_def less_2_cases_iff)
  then show ?thesis
    by blast
qed

lemma coherentI:
  assumes "\<And>n c. n < 4 \<Longrightarrow> c < 2 \<Longrightarrow> holds_line s n c a \<Longrightarrow> n \<in> presence s a"
    and "isUncached s a \<or> isShared s a \<or> isDirty s a"
    and "isUncached s a \<longleftrightarrow> presence s a = {}"
    and "\<And>n c. \<not> isDirty s a \<Longrightarrow> n < 4 \<Longrightarrow> c < 2 \<Longrightarrow> holds_line s n c a \<Longrightarrow>
           line_equals_memory s n c a"
    and "\<And>n c n' c'. isDirty s a \<Longrightarrow> n < 4 \<Longrightarrow> c < 2 \<Longrightarrow> n' < 4 \<Longrightarrow> c' < 2 \<Longrightarrow>
           holds_line s n c a \<Longrightarrow> holds_line s n' c' a \<Longrightarrow> n' = n \<and> c' = c"
  shows "coherent s a"
  unfolding coherent_def holders_subset_iff
proof (intro conjI)
  show "\<forall>n<4. \<forall>c<2. holds_line s n c a \<longrightarrow> n \<in> presence s a"
    using assms(1) by blast
  show "isUncached s a \<or> isShared s a \<or> isDirty s a"
    by (rule assms(2))
  show "isUncached s a \<longleftrightarrow> presence s a = {}"
    by (rule assms(3))
  show "\<not> isDirty s a \<longrightarrow> (\<forall>n<4. \<forall>c<2. holds_line s n c a \<longrightarrow> line_equals_memory s n c a)"
    using assms(4) by blast
  show "isDirty s a \<longrightarrow>
      (\<forall>n<4. \<forall>c<2. \<forall>n'<4. \<forall>c'<2.
          holds_line s n c a \<longrightarrow> holds_line s n' c' a \<longrightarrow> n' = n \<and> c' = c)"
    using assms(5) by blast
qed

lemma coherentD:
  assumes "coherent s a"
  shows "n < 4 \<Longrightarrow> c < 2 \<Longrightarrow> holds_line s n c a \<Longrightarrow> n \<in> presence s a"
    and "isUncached s a \<or> isShared s a \<or> isDirty s a"
    and "isUncached s a \<longleftrightarrow> presence s a = {}"
    and "\<not> isDirty s a \<Longrightarrow> n < 4 \<Longrightarrow> c < 2 \<Longrightarrow> holds_line s n c a \<Longrightarrow>
           line_equals_memory s n c a"
    and "isDirty s a \<Longrightarrow> n < 4 \<Longrightarrow> c < 2 \<Longrightarrow> n' < 4 \<Longrightarrow> c' < 2 \<Longrightarrow>
           holds_line s n c a \<Longrightarrow> holds_line s n' c' a \<Longrightarrow> n' = n \<and> c' = c"
proof -
  note u = assms [unfolded coherent_def holders_subset_iff]
  show "n < 4 \<Longrightarrow> c < 2 \<Longrightarrow> holds_line s n c a \<Longrightarrow> n \<in> presence s a"
    using u by blast
  show "isUncached s a \<or> isShared s a \<or> isDirty s a"
    using u by blast
  show "isUncached s a \<longleftrightarrow> presence s a = {}"
    using u by blast
  show "\<not> isDirty s a \<Longrightarrow> n < 4 \<Longrightarrow> c < 2 \<Longrightarrow> holds_line s n c a \<Longrightarrow>
           line_equals_memory s n c a"
    using u by blast
  show "isDirty s a \<Longrightarrow> n < 4 \<Longrightarrow> c < 2 \<Longrightarrow> n' < 4 \<Longrightarrow> c' < 2 \<Longrightarrow>
           holds_line s n c a \<Longrightarrow> holds_line s n' c' a \<Longrightarrow> n' = n \<and> c' = c"
    using u by blast
qed

text \<open>
  An operation that leaves the directory entry of an address alone, leaves its memory word
  alone unless the entry is dirty, and neither creates a holder of the address nor changes
  the data of a line that still holds it, keeps the address coherent.
\<close>

lemma coherent_shrink:
  assumes coh: "coherent s b"
    and dir: "dir_bit s' (b div 16) (b mod 16) = dir_bit s (b div 16) (b mod 16)"
    and mem: "\<not> isDirty s b \<Longrightarrow>
                mem_bit s' (b div 16) (b mod 16) = mem_bit s (b div 16) (b mod 16)"
    and hold: "\<And>n c. n < 4 \<Longrightarrow> c < 2 \<Longrightarrow> holds_line s' n c b \<Longrightarrow>
                holds_line s n c b \<and>
                (\<forall>i<32. cache_bit s' n c (b mod 4) (i + 5) = cache_bit s n c (b mod 4) (i + 5))"
  shows "coherent s' b"
proof (rule coherentI)
  note e = entry_cong [OF dir]
  fix n c
  assume "n < 4" "c < 2" "holds_line s' n c b"
  then show "n \<in> presence s' b"
    using hold coherentD(1) [OF coh] e(4) by blast
next
  show "isUncached s' b \<or> isShared s' b \<or> isDirty s' b"
    using coherentD(2) [OF coh] entry_cong [OF dir] by simp
next
  show "isUncached s' b \<longleftrightarrow> presence s' b = {}"
    using coherentD(3) [OF coh] entry_cong [OF dir] by simp
next
  fix n c
  assume nd: "\<not> isDirty s' b" and r: "n < 4" "c < 2" and h: "holds_line s' n c b"
  from nd have nd': "\<not> isDirty s b"
    by (simp add: entry_cong [OF dir])
  from hold [OF r h] have h': "holds_line s n c b"
    and d: "\<And>i. i < 32 \<Longrightarrow> cache_bit s' n c (b mod 4) (i + 5) = cache_bit s n c (b mod 4) (i + 5)"
    by simp_all
  have "line_equals_memory s n c b"
    using coherentD(4) [OF coh nd' r h'] .
  then show "line_equals_memory s' n c b"
    by (simp add: line_equals_memory_def d mem [OF nd'])
next
  fix n c n' c'
  assume "isDirty s' b" "n < 4" "c < 2" "n' < 4" "c' < 2" "holds_line s' n c b"
    "holds_line s' n' c' b"
  then show "n' = n \<and> c' = c"
    using hold coherentD(5) [OF coh, of n c n' c'] entry_cong(1) [OF dir] by blast
qed

lemma coherent_writeBack: "coherent s b \<Longrightarrow> coherent (writeBack n c l s) b"
proof (erule coherent_shrink)
  show "dir_bit (writeBack n c l s) (b div 16) (b mod 16) = dir_bit s (b div 16) (b mod 16)"
    by (simp add: writeBack_frame)
  show "mem_bit (writeBack n c l s) (b div 16) (b mod 16) = mem_bit s (b div 16) (b mod 16)"
    if "\<not> isDirty s b"
    using that by (auto simp: writeBack_mem isDirty_def fun_eq_iff)
  show "holds_line s n' c' b \<and>
      (\<forall>i<32. cache_bit (writeBack n c l s) n' c' (b mod 4) (i + 5) = cache_bit s n' c' (b mod 4) (i + 5))"
    if "holds_line (writeBack n c l s) n' c' b" for n' c'
    using that by (simp add: holds_line_def tag_value_def writeBack_frame)
qed

lemma coherent_frame:
  assumes "coherent s b" and "cache_bit s' = cache_bit s" and "mem_bit s' = mem_bit s"
    and "dir_bit s' = dir_bit s"
  shows "coherent s' b"
  using assms(1)
proof (rule coherent_shrink)
  show "holds_line s n c b \<and>
      (\<forall>i<32. cache_bit s' n c (b mod 4) (i + 5) = cache_bit s n c (b mod 4) (i + 5))"
    if "holds_line s' n c b" for n c
    using that by (simp add: holds_line_def tag_value_def assms(2))
qed (simp_all add: assms)

lemma coherent_all_writeBack: "coherent_all s \<Longrightarrow> coherent_all (writeBack n c l s)"
  by (simp add: coherent_all_def coherent_writeBack)

lemma coherent_all_frame:
  "coherent_all s \<Longrightarrow> cache_bit s' = cache_bit s \<Longrightarrow> mem_bit s' = mem_bit s \<Longrightarrow>
   dir_bit s' = dir_bit s \<Longrightarrow> coherent_all s'"
  unfolding coherent_all_def by (blast intro: coherent_frame)

lemma entry_neq: "b \<noteq> a \<Longrightarrow> \<not> (b div 16 = a div 16 \<and> b mod 16 = (a::nat) mod 16)"
  using entry_inj by blast

subsection \<open>Home clean fetch\<close>

lemma coherent_load_case3:
  assumes all: "coherent_all s" and n: "n < 4" and c: "c < 2" and a: "a < 64" and b: "b < 64"
    and clean: "\<not> dir_bit s (a div 16) (a mod 16) 0"
  shows "coherent (load_case3 n c (a mod 4) (tag_of a) (a div 16) (a mod 16) r s) b"
proof -
  let ?s = "load_case3 n c (a mod 4) (tag_of a) (a div 16) (a mod 16) r s"
  have coh: "coherent s x" if "x < 64" for x
    using all that by (simp add: coherent_all_def)
  have other: "cache_bit ?s n' c' l' j = cache_bit s n' c' l' j"
    if "\<not> (n' = n \<and> c' = c \<and> l' = a mod 4)" for n' c' l' j
    using that by (auto simp: load_case3_cache)
  have hit: "holds_line ?s n c a"
    by (simp add: holds_line_hit line_hit_def load_case3_cache)
  have mem: "mem_bit ?s = mem_bit s"
    by (rule load_case3_frame)
  show ?thesis
  proof (cases "b = a")
    case False
    have d: "dir_bit ?s (b div 16) (b mod 16) = dir_bit s (b div 16) (b mod 16)"
      using entry_neq [OF False] by (auto simp: load_case3_dir fun_eq_iff)
    show ?thesis
    proof (rule coherent_shrink [OF coh [OF b] d])
      show "mem_bit ?s (b div 16) (b mod 16) = mem_bit s (b div 16) (b mod 16)"
        by (simp add: mem)
    next
      fix n' c'
      assume h: "holds_line ?s n' c' b"
      have "\<not> (n' = n \<and> c' = c \<and> b mod 4 = a mod 4)"
      proof
        assume e: "n' = n \<and> c' = c \<and> b mod 4 = a mod 4"
        with h have hb: "holds_line ?s n c b"
          by blast
        from e have m: "a mod 4 = b mod 4"
          by (elim conjE) (rule sym)
        have "a = b"
          by (rule holds_line_unique [OF hit hb m a b])
        with False show False
          by blast
      qed
      then have "cache_bit ?s n' c' (b mod 4) j = cache_bit s n' c' (b mod 4) j" for j
        by (rule other)
      then show "holds_line s n' c' b \<and>
          (\<forall>i<32. cache_bit ?s n' c' (b mod 4) (i + 5) = cache_bit s n' c' (b mod 4) (i + 5))"
        using h by (simp add: holds_line_def tag_value_def)
    qed
  next
    case True
    have d: "dir_bit ?s (a div 16) (a mod 16) j =
        (if j = 0 \<or> j = 1 \<or> j = 2 + n then j \<noteq> 0 else dir_bit s (a div 16) (a mod 16) j)" for j
      by (simp add: load_case3_dir)
    have st: "isShared ?s a" "\<not> isDirty ?s a" "\<not> isUncached ?s a"
      by (simp_all add: isShared_def isDirty_def isUncached_def d)
    have pr: "presence ?s a = insert n (presence s a)"
      using n by (intro presence_insertI) (auto simp: d)
    have nd: "\<not> isDirty s a"
      using clean by (simp add: isDirty_def)
    have old: "holds_line s n' c' a \<and> line_equals_memory ?s n' c' a = line_equals_memory s n' c' a"
      if "holds_line ?s n' c' a" "\<not> (n' = n \<and> c' = c)" for n' c'
    proof -
      have "cache_bit ?s n' c' (a mod 4) j = cache_bit s n' c' (a mod 4) j" for j
        using that(2) by (intro other) simp
      then show ?thesis
        using that(1) by (simp add: holds_line_def tag_value_def line_equals_memory_def mem)
    qed
    have new: "line_equals_memory ?s n c a"
      by (simp add: line_equals_memory_def load_case3_cache mem)
    have "coherent ?s a"
    proof (rule coherentI)
      fix n' c'
      assume "n' < 4" "c' < 2" "holds_line ?s n' c' a"
      then show "n' \<in> presence ?s a"
        using old [of n' c'] coherentD(1) [OF coh [OF a], of n' c'] pr by blast
    next
      show "isUncached ?s a \<or> isShared ?s a \<or> isDirty ?s a"
        using st by simp
      show "isUncached ?s a \<longleftrightarrow> presence ?s a = {}"
        using st pr by simp
    next
      fix n' c'
      assume "n' < 4" "c' < 2" "holds_line ?s n' c' a"
      then show "line_equals_memory ?s n' c' a"
        using old [of n' c'] new coherentD(4) [OF coh [OF a] nd, of n' c'] by blast
    next
      fix n1 c1 n2 c2
      assume "isDirty ?s a"
      with st show "n2 = n1 \<and> c2 = c1"
        by simp
    qed
    with True show ?thesis
      by simp
  qed
qed

subsection \<open>Dirty migration\<close>

lemma coherent_load_case4_install:
  assumes all: "coherent_all s" and c: "c < 2" and a: "a < 64" and b: "b < 64"
    and dn: "dn < 4" and dc: "dc < 2" and owner: "holds_line s dn dc a"
    and dirty: "isDirty s a"
  shows "coherent (load_case4_install n c (a mod 4) (tag_of a) (a div 16) (a mod 16) r dn dc s) b"
proof -
  let ?s = "load_case4_install n c (a mod 4) (tag_of a) (a div 16) (a mod 16) r dn dc s"
  have coh: "coherent s x" if "x < 64" for x
    using all that by (simp add: coherent_all_def)
  from a have h: "a div 16 < 4"
    by arith
  have other: "cache_bit ?s n' c' l' j = cache_bit s n' c' l' j"
    if "\<not> (n' = a div 16 \<and> c' = c \<and> l' = a mod 4)" for n' c' l' j
    using that by (auto simp: load_case4_install_cache)
  have hit: "holds_line ?s (a div 16) c a"
    by (simp add: holds_line_hit line_hit_def load_case4_install_cache)
  show ?thesis
  proof (cases "b = a")
    case False
    have d: "dir_bit ?s (b div 16) (b mod 16) = dir_bit s (b div 16) (b mod 16)"
      using entry_neq [OF False] by (auto simp: load_case4_install_dir fun_eq_iff)
    have m: "mem_bit ?s (b div 16) (b mod 16) = mem_bit s (b div 16) (b mod 16)"
      using entry_neq [OF False] by (auto simp: load_case4_install_mem fun_eq_iff)
    show ?thesis
    proof (rule coherent_shrink [OF coh [OF b] d m])
      fix n' c'
      assume hb: "holds_line ?s n' c' b"
      have "\<not> (n' = a div 16 \<and> c' = c \<and> b mod 4 = a mod 4)"
      proof
        assume e: "n' = a div 16 \<and> c' = c \<and> b mod 4 = a mod 4"
        with hb have hb': "holds_line ?s (a div 16) c b"
          by blast
        from e have m: "a mod 4 = b mod 4"
          by (elim conjE) (rule sym)
        have "a = b"
          by (rule holds_line_unique [OF hit hb' m a b])
        with False show False
          by blast
      qed
      then have "cache_bit ?s n' c' (b mod 4) j = cache_bit s n' c' (b mod 4) j" for j
        by (rule other)
      then show "holds_line s n' c' b \<and>
          (\<forall>i<32. cache_bit ?s n' c' (b mod 4) (i + 5) = cache_bit s n' c' (b mod 4) (i + 5))"
        using hb by (simp add: holds_line_def tag_value_def)
    qed
  next
    case True
    have d: "dir_bit ?s (a div 16) (a mod 16) j =
        (if j = 0 \<or> j = 1 \<or> j = 2 + a div 16 then j \<noteq> 0
         else dir_bit s (a div 16) (a mod 16) j)" for j
      by (simp add: load_case4_install_dir)
    have st: "isShared ?s a" "\<not> isDirty ?s a" "\<not> isUncached ?s a"
      by (simp_all add: isShared_def isDirty_def isUncached_def d)
    have pr: "presence ?s a = insert (a div 16) (presence s a)"
      using h by (intro presence_insertI) (auto simp: d)
    have mem: "mem_bit ?s (a div 16) (a mod 16) i = cache_bit s dn dc (a mod 4) (i + 5)"
      if "i < 32" for i
      using that by (simp add: load_case4_install_mem)
    have new: "line_equals_memory ?s (a div 16) c a"
      by (simp add: line_equals_memory_def load_case4_install_cache mem)
    have old: "holds_line s n' c' a \<and> line_equals_memory ?s n' c' a"
      if hs: "holds_line ?s n' c' a" and r: "n' < 4" "c' < 2" and ne: "\<not> (n' = a div 16 \<and> c' = c)"
      for n' c'
    proof -
      have same: "cache_bit ?s n' c' (a mod 4) j = cache_bit s n' c' (a mod 4) j" for j
        using ne by (intro other) simp
      with hs have hp: "holds_line s n' c' a"
        by (simp add: holds_line_def tag_value_def)
      from coherentD(5) [OF coh [OF a] dirty dn dc r owner hp] have "n' = dn" "c' = dc"
        by simp_all
      with same have "line_equals_memory ?s n' c' a"
        by (simp add: line_equals_memory_def mem)
      with hp show ?thesis
        by simp
    qed
    have "coherent ?s a"
    proof (rule coherentI)
      fix n' c'
      assume "n' < 4" "c' < 2" "holds_line ?s n' c' a"
      then show "n' \<in> presence ?s a"
        using old [of n' c'] coherentD(1) [OF coh [OF a], of n' c'] pr by blast
    next
      show "isUncached ?s a \<or> isShared ?s a \<or> isDirty ?s a"
        using st by simp
      show "isUncached ?s a \<longleftrightarrow> presence ?s a = {}"
        using st pr by simp
    next
      fix n' c'
      assume "n' < 4" "c' < 2" "holds_line ?s n' c' a"
      then show "line_equals_memory ?s n' c' a"
        using old [of n' c'] new by blast
    next
      fix n1 c1 n2 c2
      assume "isDirty ?s a"
      with st show "n2 = n1 \<and> c2 = c1"
        by simp
    qed
    with True show ?thesis
      by simp
  qed
qed

subsection \<open>Stores\<close>

lemma coherent_store_hit:
  assumes all: "coherent_all s" and n: "n < 4" and c: "c < 2" and a: "a < 64" and b: "b < 64"
    and own: "holds_line s n c a"
  shows "coherent (store_hit n c (a mod 4) (tag_of a) (a div 16) (a mod 16) r s) b"
proof -
  let ?s = "store_hit n c (a mod 4) (tag_of a) (a div 16) (a mod 16) r s"
  have coh: "coherent s x" if "x < 64" for x
    using all that by (simp add: coherent_all_def)
  have hit: "holds_line ?s n c a"
    by (simp add: holds_line_hit line_hit_def store_hit_cache)
  have tagbits: "cache_bit ?s n' c' l' j = cache_bit s n' c' l' j"
    if "\<not> (n' = n \<and> c' = c \<and> l' = a mod 4)" "0 < j" for n' c' l' j
    using that by (auto simp: store_hit_cache)
  have valid: "cache_bit ?s n' c' l' 0 \<longleftrightarrow>
      cache_bit s n' c' l' 0 \<and>
      \<not> (n' < 4 \<and> c' < 2 \<and> l' = a mod 4 \<and> dir_bit s (a div 16) (a mod 16) (n' + 2) \<and>
         holds_line s n' c' a)"
    if "\<not> (n' = n \<and> c' = c \<and> l' = a mod 4)" for n' c' l'
    using that by (auto simp: store_hit_cache holds_line_hit)
  have mono: "holds_line s n' c' x \<and>
      (\<forall>i<32. cache_bit ?s n' c' (x mod 4) (i + 5) = cache_bit s n' c' (x mod 4) (i + 5))"
    if "holds_line ?s n' c' x" "\<not> (n' = n \<and> c' = c \<and> x mod 4 = a mod 4)" for n' c' x
    using that(1) valid [OF that(2)] tagbits [OF that(2)]
    by (simp add: holds_line_def tag_value_def)
  show ?thesis
  proof (cases "b = a")
    case False
    have d: "dir_bit ?s (b div 16) (b mod 16) = dir_bit s (b div 16) (b mod 16)"
      using entry_neq [OF False] by (auto simp: store_hit_dir fun_eq_iff)
    show ?thesis
    proof (rule coherent_shrink [OF coh [OF b] d])
      show "mem_bit ?s (b div 16) (b mod 16) = mem_bit s (b div 16) (b mod 16)"
        by (simp add: store_hit_frame)
    next
      fix n' c'
      assume hb: "holds_line ?s n' c' b"
      have "\<not> (n' = n \<and> c' = c \<and> b mod 4 = a mod 4)"
      proof
        assume e: "n' = n \<and> c' = c \<and> b mod 4 = a mod 4"
        with hb have hb': "holds_line ?s n c b"
          by blast
        from e have m: "a mod 4 = b mod 4"
          by (elim conjE) (rule sym)
        have "a = b"
          by (rule holds_line_unique [OF hit hb' m a b])
        with False show False
          by blast
      qed
      with hb show "holds_line s n' c' b \<and>
          (\<forall>i<32. cache_bit ?s n' c' (b mod 4) (i + 5) = cache_bit s n' c' (b mod 4) (i + 5))"
        by (rule mono)
    qed
  next
    case True
    have d: "dir_bit ?s (a div 16) (a mod 16) j =
        (if j < 2 then True else dir_bit s (a div 16) (a mod 16) j)" for j
      by (simp add: store_hit_dir)
    have st: "isDirty ?s a" "\<not> isUncached ?s a"
      by (simp_all add: isDirty_def isUncached_def d)
    have pr: "presence ?s a = presence s a"
      by (rule presence_eqI) (simp add: d)
    have inp: "n \<in> presence s a"
      using coherentD(1) [OF coh [OF a] n c own] .
    have only: "n' = n \<and> c' = c" if hs: "holds_line ?s n' c' a" and r: "n' < 4" "c' < 2"
      for n' c'
    proof (rule ccontr)
      assume ne: "\<not> (n' = n \<and> c' = c)"
      then have ne': "\<not> (n' = n \<and> c' = c \<and> a mod 4 = a mod 4)"
        by simp
      from mono [OF hs ne'] have hp: "holds_line s n' c' a"
        by simp
      from coherentD(1) [OF coh [OF a] r hp] have "dir_bit s (a div 16) (a mod 16) (n' + 2)"
        by (simp add: presence_mem)
      with hp r have "\<not> cache_bit ?s n' c' (a mod 4) 0"
        using valid [OF ne'] by simp
      with hs show False
        by (simp add: holds_line_def)
    qed
    have "coherent ?s a"
    proof (rule coherentI)
      fix n' c'
      assume "n' < 4" "c' < 2" "holds_line ?s n' c' a"
      then show "n' \<in> presence ?s a"
        using only [of n' c'] inp pr by simp
    next
      show "isUncached ?s a \<or> isShared ?s a \<or> isDirty ?s a"
        using st by simp
      show "isUncached ?s a \<longleftrightarrow> presence ?s a = {}"
        using st pr inp by auto
    next
      fix n' c'
      assume "\<not> isDirty ?s a"
      with st show "line_equals_memory ?s n' c' a"
        by simp
    next
      fix n1 c1 n2 c2
      assume "n1 < 4" "c1 < 2" "n2 < 4" "c2 < 2" "holds_line ?s n1 c1 a" "holds_line ?s n2 c2 a"
      then show "n2 = n1 \<and> c2 = c1"
        using only [of n1 c1] only [of n2 c2] by simp
    qed
    with True show ?thesis
      by simp
  qed
qed

lemma coherent_store_miss:
  assumes all: "coherent_all s" and a: "a < 64" and b: "b < 64"
  shows "coherent (store_miss n c (a mod 4) (tag_of a) (a div 16) (a mod 16) r s) b"
proof -
  let ?s = "store_miss n c (a mod 4) (tag_of a) (a div 16) (a mod 16) r s"
  have coh: "coherent s x" if "x < 64" for x
    using all that by (simp add: coherent_all_def)
  have tagbits: "cache_bit ?s n' c' l' j = cache_bit s n' c' l' j" if "0 < j" for n' c' l' j
    using that by (auto simp: store_miss_cache)
  have valid: "cache_bit ?s n' c' l' 0 \<longleftrightarrow>
      cache_bit s n' c' l' 0 \<and>
      \<not> (n' < 4 \<and> c' < 2 \<and> l' = a mod 4 \<and> dir_bit s (a div 16) (a mod 16) (n' + 2) \<and>
         holds_line s n' c' a)" for n' c' l'
    by (auto simp: store_miss_cache holds_line_hit)
  have mono: "holds_line s n' c' x \<and>
      (\<forall>i<32. cache_bit ?s n' c' (x mod 4) (i + 5) = cache_bit s n' c' (x mod 4) (i + 5))"
    if "holds_line ?s n' c' x" for n' c' x
    using that valid tagbits by (simp add: holds_line_def tag_value_def)
  show ?thesis
  proof (cases "b = a")
    case False
    have d: "dir_bit ?s (b div 16) (b mod 16) = dir_bit s (b div 16) (b mod 16)"
      using entry_neq [OF False] by (auto simp: store_miss_dir fun_eq_iff)
    have m: "mem_bit ?s (b div 16) (b mod 16) = mem_bit s (b div 16) (b mod 16)"
      using entry_neq [OF False] by (auto simp: store_miss_mem fun_eq_iff)
    show ?thesis
      by (rule coherent_shrink [OF coh [OF b] d m]) (rule mono)
  next
    case True
    have d: "dir_bit ?s (a div 16) (a mod 16) j =
        (if j = 0 \<and> dir_bit s (a div 16) (a mod 16) 1 then False
         else dir_bit s (a div 16) (a mod 16) j)" for j
      by (simp add: store_miss_dir)
    have pr: "presence ?s a = presence s a"
      by (rule presence_eqI) (simp add: d)
    have none: "\<not> holds_line ?s n' c' a" if r: "n' < 4" "c' < 2" for n' c'
    proof
      assume hs: "holds_line ?s n' c' a"
      from mono [OF hs] have hp: "holds_line s n' c' a"
        by simp
      from coherentD(1) [OF coh [OF a] r hp] have "dir_bit s (a div 16) (a mod 16) (n' + 2)"
        by (simp add: presence_mem)
      with hp r have "\<not> cache_bit ?s n' c' (a mod 4) 0"
        using valid by simp
      with hs show False
        by (simp add: holds_line_def)
    qed
    have "coherent ?s a"
    proof (rule coherentI)
      fix n' c'
      assume "n' < 4" "c' < 2" "holds_line ?s n' c' a"
      then show "n' \<in> presence ?s a"
        using none by blast
    next
      show "isUncached ?s a \<or> isShared ?s a \<or> isDirty ?s a"
        using coherentD(2) [OF coh [OF a]]
        by (auto simp: isUncached_def isShared_def isDirty_def d)
      show "isUncached ?s a \<longleftrightarrow> presence ?s a = {}"
        using coherentD(2,3) [OF coh [OF a]] unfolding pr
        by (auto simp: isUncached_def isShared_def isDirty_def d)
    next
      fix n' c'
      assume "n' < 4" "c' < 2" "holds_line ?s n' c' a"
      then show "line_equals_memory ?s n' c' a"
        using none by blast
    next
      fix n1 c1 n2 c2
      assume "n1 < 4" "c1 < 2" "holds_line ?s n1 c1 a"
      then show "n2 = n1 \<and> c2 = c1"
        using none by blast
    qed
    with True show ?thesis
      by simp
  qed
qed

subsection \<open>One access, and runs\<close>

lemma find_dirtyNode_found:
  assumes "0 \<le> find_dirtyNode s h w"
  shows "nat (find_dirtyNode s h w) < 4"
    and "dir_bit s h w (2 + nat (find_dirtyNode s h w))"
  using assms by (simp_all add: find_dirtyNode_eq eval_nat_numeral split: if_splits)

lemma find_dirtyCPU_found:
  assumes "0 \<le> find_dirtyCPU s dn l tag"
  shows "nat (find_dirtyCPU s dn l tag) < 2"
    and "line_hit s dn (nat (find_dirtyCPU s dn l tag)) l tag"
  using assms by (simp_all add: find_dirtyCPU_def split: if_splits)

lemma coherent_all_load_case4:
  assumes r: "load_case4 n c (a mod 4) (tag_of a) (a div 16) (a mod 16) r s = Inr s'"
    and all: "coherent_all s" and c: "c < 2" and a: "a < 64"
    and bit: "dir_bit s (a div 16) (a mod 16) 0"
  shows "coherent_all s'"
proof -
  let ?k = "add_clock 135 s"
  let ?dn = "find_dirtyNode ?k (a div 16) (a mod 16)"
  let ?dc = "find_dirtyCPU ?k (nat ?dn) (a mod 4) (tag_of a)"
  from r have dn: "0 \<le> ?dn"
    by (auto simp: load_case4_def Let_def split: if_splits)
  from r dn have dc: "0 \<le> ?dc"
    by (auto simp: load_case4_def Let_def split: if_splits)
  from r dn dc have s': "s' = load_case4_install n c (a mod 4) (tag_of a) (a div 16) (a mod 16) r
                              (nat ?dn) (nat ?dc) ?k"
    by (auto simp: load_case4_def Let_def split: if_splits)
  have k: "coherent_all ?k"
    using all by (rule coherent_all_frame) simp_all
  then have "coherent ?k a"
    using a by (simp add: coherent_all_def)
  from coherentD(2) [OF this] bit have dirty: "isDirty ?k a"
    by (simp add: isUncached_def isShared_def isDirty_def)
  have owner: "holds_line ?k (nat ?dn) (nat ?dc) a"
    unfolding holds_line_hit by (rule find_dirtyCPU_found(2) [OF dc])
  have "coherent s' x" if "x < 64" for x
    unfolding s'
    by (rule coherent_load_case4_install [OF k c a that find_dirtyNode_found(1) [OF dn]
          find_dirtyCPU_found(1) [OF dc] owner dirty])
  then show ?thesis
    by (simp add: coherent_all_def)
qed

lemma coherent_all_load:
  assumes ml: "memoryAccess_load n c a r s = Inr s'" and all: "coherent_all s"
    and ns: "classify (n, c, ''100011'', a, r) s \<noteq> Some SiblingHit"
  shows "coherent_all s'"
proof -
  from ml have g: "n < 4" "c < 2" "r < 2"
    by (auto simp: memoryAccess_load_def split: if_splits)
  note eq = memoryAccess_load_eq [symmetric]
  let ?b = "writeBack n c (a mod 4) s"
  have b: "coherent_all ?b"
    using all by (rule coherent_all_writeBack)
  show ?thesis
  proof (cases "line_hit s n c (a mod 4) (tag_of a)")
    case True
    with g ml have s': "s' = load_case1 n c (a mod 4) r s"
      by (simp add: eq load_is_case1)
    show ?thesis
      unfolding s' by (rule coherent_all_frame [OF all]) (simp_all add: load_case1_frame)
  next
    case own: False
    with ns have sib: "\<not> line_hit s n ((c + 1) mod 2) (a mod 4) (tag_of a)"
      by (auto simp: classify_def holds_line_hit split: if_splits)
    from ml g own sib have h: "\<not> 4 \<le> a div 16"
      by (auto simp: memoryAccess_load_def Let_def line_hit_writeBack split: if_splits)
    then have a: "a < 64" by arith
    show ?thesis
    proof (cases "dir_bit s (a div 16) (a mod 16) 0")
      case False
      with g a ml own sib have s': "s' = load_case3 n c (a mod 4) (tag_of a) (a div 16) (a mod 16) r ?b"
        by (simp add: eq load_is_case3)
      from False have nd: "\<not> dir_bit ?b (a div 16) (a mod 16) 0"
        by (simp add: writeBack_frame)
      have "coherent s' x" if "x < 64" for x
        unfolding s' by (rule coherent_load_case3 [OF b g(1,2) a that nd])
      then show ?thesis
        by (simp add: coherent_all_def)
    next
      case True
      with g a ml own sib have l4: "load_case4 n c (a mod 4) (tag_of a) (a div 16) (a mod 16) r ?b
                                  = Inr s'"
        by (simp add: eq load_is_case4)
      from True have d: "dir_bit ?b (a div 16) (a mod 16) 0"
        by (simp add: writeBack_frame)
      show ?thesis
        by (rule coherent_all_load_case4 [OF l4 b g(2) a d])
    qed
  qed
qed

lemma coherent_all_store:
  assumes ws: "writeToMem n c ''101011'' a r s = Inr s'" and all: "coherent_all s"
  shows "coherent_all s'"
proof -
  from ws have g: "n < 4" "c < 2" "r < 2"
    by (auto simp: writeToMem_def split: if_splits)
  from ws g have "\<not> 4 \<le> a div 16"
    by (auto simp: writeToMem_def Let_def split: if_splits)
  then have a: "a < 64" by arith
  note eq = memoryAccess_store_eq [symmetric]
  show ?thesis
  proof (cases "line_hit s n c (a mod 4) (tag_of a)")
    case True
    with g a ws have s': "s' = store_hit n c (a mod 4) (tag_of a) (a div 16) (a mod 16) r s"
      by (simp add: eq store_is_hit)
    from True have own: "holds_line s n c a"
      by (simp add: holds_line_hit)
    have "coherent s' x" if "x < 64" for x
      unfolding s' by (rule coherent_store_hit [OF all g(1,2) a that own])
    then show ?thesis
      by (simp add: coherent_all_def)
  next
    case False
    with g a ws have s': "s' = store_miss n c (a mod 4) (tag_of a) (a div 16) (a mod 16) r s"
      by (simp add: eq store_is_miss)
    have "coherent s' x" if "x < 64" for x
      unfolding s' by (rule coherent_store_miss [OF all a that])
    then show ?thesis
      by (simp add: coherent_all_def)
  qed
qed

lemma coherent_all_step:
  assumes "step x s = Inr s'" and all: "coherent_all s" and ns: "classify x s \<noteq> Some SiblingHit"
  shows "coherent_all s'"
proof -
  obtain n c opCode a r where x: "x = (n, c, opCode, a, r)"
    by (cases x) auto
  from assms x have m: "memoryAccess n c opCode a r s = Inr s'"
    by (simp add: step_InrD)
  consider "opCode = ''100011''" | "opCode = ''101011''"
    | "opCode \<noteq> ''100011''" "opCode \<noteq> ''101011''"
    by blast
  then show ?thesis
  proof cases
    case 1
    with m have "memoryAccess_load n c a r s = Inr s'"
      by (simp add: memoryAccess_load_eq)
    then show ?thesis
      using all ns unfolding x 1 by (rule coherent_all_load)
  next
    case 2
    with m have "writeToMem n c ''101011'' a r s = Inr s'"
      by (simp add: memoryAccess_store_eq)
    then show ?thesis
      using all by (rule coherent_all_store)
  next
    case 3
    with m all show ?thesis
      by (simp add: memoryAccess_other)
  qed
qed

text \<open>
  Sibling hits are left out: the sibling-hit branch copies three of the four tag bits, so
  the line it installs can carry the tag of another word.
\<close>

lemma coherent_all_run:
  "run xs s = Inr s' \<Longrightarrow> coherent_all s \<Longrightarrow> no_sibling_hit xs s \<Longrightarrow> coherent_all s'"
proof (induction xs arbitrary: s)
  case Nil
  then show ?case by simp
next
  case (Cons x xs)
  from Cons.prems(1) obtain s1 where s1: "step x s = Inr s1" and rest: "run xs s1 = Inr s'"
    by (auto split: sum.splits)
  from Cons.prems(3) s1 have ns: "classify x s \<noteq> Some SiblingHit" and ns': "no_sibling_hit xs s1"
    by simp_all
  from coherent_all_step [OF s1 Cons.prems(2) ns] have "coherent_all s1" .
  from Cons.IH [OF rest this ns'] show ?case .
qed

lemma coherent_all_start:
  assumes "\<And>n c l. n < 4 \<Longrightarrow> c < 2 \<Longrightarrow> l < 4 \<Longrightarrow> \<not> cache_bit s n c l 0"
    and "\<And>n e j. n < 4 \<Longrightarrow> e < 16 \<Longrightarrow> j < 6 \<Longrightarrow> \<not> dir_bit s n e j"
  shows "coherent_all s"
  unfolding coherent_all_def
proof (intro allI impI)
  fix a :: nat
  assume a: "a < 64"
  then have h: "a div 16 < 4" "a mod 16 < 16" "a mod 4 < 4"
    by arith+
  have nh: "\<not> holds_line s n c a" if "n < 4" "c < 2" for n c
    using assms(1) [OF that h(3)] by (simp add: holds_line_def)
  have un: "isUncached s a"
    using assms(2) [OF h(1,2)] by (simp add: isUncached_def)
  have pr: "presence s a = {}"
    using assms(2) [OF h(1,2)] by (auto simp: presence_mem)
  show "coherent s a"
    by (rule coherentI) (use nh un pr in blast)+
qed

lemma coherent_all_zeroStart: "coherent_all zeroStart"
  by (rule coherent_all_start) (simp_all add: init_bits)

subsection \<open>The central invariant\<close>

lemma load_then_remote_store:
  defines "s1 \<equiv> load_case3 0 0 1 (tag_of 5) 0 5 0 zeroStart"
  defines "s2 \<equiv> store_miss 1 0 1 (tag_of 5) 0 5 0 s1"
  shows "run [(0, 0, ''100011'', 5, 0), (1, 0, ''101011'', 5, 0)] zeroStart = Inr s2"
    and "presence s2 5 = {0}" and "holders s2 5 = {}"
    and "isShared s2 5" and "\<not> isDirty s2 5"
proof -
  have m1: "memoryAccess 0 0 ''100011'' 5 0 zeroStart = Inr s1"
    by (simp add: cold_load_5 s1_def)
  have miss: "\<not> line_hit s1 1 0 (5 mod 4) (tag_of 5)"
    by (simp add: s1_def line_hit_def load_case3_cache init_bits)
  have "memoryAccess 1 0 ''101011'' 5 0 s1 =
      Inr (store_miss 1 0 (5 mod 4) (tag_of 5) (5 div 16) (5 mod 16) 0 s1)"
    using miss by (intro store_is_miss) simp_all
  then have m2: "memoryAccess 1 0 ''101011'' 5 0 s1 = Inr s2"
    by (simp add: s2_def)
  have k: "clockCount s1 \<le> 2147483647" "clockCount s2 \<le> 2147483647"
    by (simp_all add: s1_def s2_def clock_simps)
  show "run [(0, 0, ''100011'', 5, 0), (1, 0, ''101011'', 5, 0)] zeroStart = Inr s2"
    using m1 m2 k by simp
  have d1: "dir_bit s1 0 5 j = (j = 1 \<or> j = 2)" for j
    by (auto simp: s1_def load_case3_dir init_bits)
  have d2: "dir_bit s2 0 5 j = (j = 1 \<or> j = 2)" for j
    by (auto simp: s2_def store_miss_dir d1)
  show "presence s2 5 = {0}"
    by (simp add: presence_def upt_0_4 d2)
  have v: "\<not> cache_bit s2 n c 1 0" for n c
    using cold_load_5_line d1 [of "Suc (Suc 0)"]
    by (auto simp: s2_def store_miss_cache s1_def load_case3_cache init_bits)
  show "holders s2 5 = {}"
    using v by (simp add: holders_def holds_line_hit line_hit_def)
  show "isShared s2 5" and "\<not> isDirty s2 5"
    by (simp_all add: isShared_def isDirty_def d2)
qed

text \<open>
  The invariant of the specification fails at word 5 in both states: in the first the
  presence set is not the set of holders, in the second a dirty entry has two presence
  bits.
\<close>

lemma central_invariant_word:
  "central_invariant s \<Longrightarrow> a < 64 \<Longrightarrow>
   presence s a = holders s a \<and> (isDirty s a \<longleftrightarrow> card (presence s a) = 1)"
  by (simp add: central_invariant_def)

lemma central_invariant_fails:
  "\<not> central_invariant
       (projr (run [(0, 0, ''100011'', 5, 0), (1, 0, ''101011'', 5, 0)] zeroStart))"
  "\<not> central_invariant
       (projr (run [(0, 0, ''100011'', 5, 0), (1, 0, ''100011'', 5, 0),
                    (1, 0, ''101011'', 5, 0)] zeroStart))"
proof -
  note f = load_then_remote_store
  note g = two_sharers_then_store
  show "\<not> central_invariant
       (projr (run [(0, 0, ''100011'', 5, 0), (1, 0, ''101011'', 5, 0)] zeroStart))"
    unfolding f(1) using central_invariant_word [of _ 5] f(2,3) by fastforce
  show "\<not> central_invariant
       (projr (run [(0, 0, ''100011'', 5, 0), (1, 0, ''100011'', 5, 0),
                    (1, 0, ''101011'', 5, 0)] zeroStart))"
    unfolding g(2) using central_invariant_word [of _ 5] g(6,11) by fastforce
qed

text \<open>
  Claim C1 (central directory invariant). The claim ties the presence set of every word to
  the set of nodes that hold a valid line for it, and the dirty state to a single presence
  bit. The program sets presence bits in load cases 3 and 4 and has no statement that
  clears one: the invalidation loops of \<^verbatim>\<open>writeToMem\<close> clear valid bits only, and the
  write hit sets the state bits only.

  Node 0, processor 0 loads address 5; node 1, processor 0 then stores to address 5, a
  write miss. The line of node 0 is invalidated and its presence bit stays: the entry is
  shared with presence \<open>{0}\<close>, a single presence bit, and no node holds the word.

  Nodes 0 and 1 load address 5; node 1, processor 0 then stores to it, a write hit. The
  line of node 0 is invalidated and its presence bit stays: the entry is dirty with
  presence \<open>{0, 1}\<close> while node 1 is the only holder.
\<close>

theorem C1_presence_bits_never_cleared:
  "\<not> isl (run [(0, 0, ''100011'', 5, 0), (1, 0, ''101011'', 5, 0)] zeroStart) \<and>
   presence (projr (run [(0, 0, ''100011'', 5, 0), (1, 0, ''101011'', 5, 0)] zeroStart)) 5
     = {0} \<and>
   holders (projr (run [(0, 0, ''100011'', 5, 0), (1, 0, ''101011'', 5, 0)] zeroStart)) 5
     = {} \<and>
   isShared (projr (run [(0, 0, ''100011'', 5, 0), (1, 0, ''101011'', 5, 0)] zeroStart)) 5 \<and>
   \<not> isDirty (projr (run [(0, 0, ''100011'', 5, 0), (1, 0, ''101011'', 5, 0)] zeroStart)) 5 \<and>
   \<not> isl (run [(0, 0, ''100011'', 5, 0), (1, 0, ''100011'', 5, 0), (1, 0, ''101011'', 5, 0)]
            zeroStart) \<and>
   isDirty (projr (run [(0, 0, ''100011'', 5, 0), (1, 0, ''100011'', 5, 0),
                        (1, 0, ''101011'', 5, 0)] zeroStart)) 5 \<and>
   presence (projr (run [(0, 0, ''100011'', 5, 0), (1, 0, ''100011'', 5, 0),
                         (1, 0, ''101011'', 5, 0)] zeroStart)) 5 = {0, 1} \<and>
   holders (projr (run [(0, 0, ''100011'', 5, 0), (1, 0, ''100011'', 5, 0),
                        (1, 0, ''101011'', 5, 0)] zeroStart)) 5 = {1}"
  unfolding load_then_remote_store(1) two_sharers_then_store(2)
  using load_then_remote_store(2-5) two_sharers_then_store(5,6,11) by simp

end
